theory Spec2Isabelle
  imports Main "HOL-Library.Word" "HOL-Library.Multiset"
begin

section \<open>Errors\<close>

text \<open>
  The program reports every failure by throwing \<^verbatim>\<open>std::runtime_error\<close> with a message.
  The model returns the failure as a value; each constructor stands for the messages of
  one error kind of the specification (section 7).
\<close>

datatype error =
    BadEncoding | BadBase64 | BadUuid | BadBool | BadInt | BadFloat | BadTag
  | UnsupportedInLegacy | ReservedType | FieldTooLong | FieldsPerCallExceeded
  | ValueTooLarge | LineTooLarge | ParseError | UnknownFieldId | UnknownValueId
  | Duplicate | StorageError

section \<open>Library routines\<close>

text \<open>
  \<^verbatim>\<open>std::string\<close> and byte vectors are lists of \<^typ>\<open>char\<close> (a \<^typ>\<open>char\<close> is one byte).
  The routines of ICU, OpenSSL, the C library's floating point and nlohmann's number
  formatter are not part of the repository. They are the fields of a record that every
  function using them takes as its first argument, so each theorem holds for whatever
  these routines compute. A \<^verbatim>\<open>double\<close> is a value of an unspecified type.
\<close>

typedecl double

record lib =
  sha256_bytes :: "string \<Rightarrow> string"
  nfc_normalize_utf8 :: "string \<Rightarrow> string"
  utf8_roundtrip :: "string \<Rightarrow> string"
  EVP_DecodeBlock :: "string \<Rightarrow> string option"
  strtod :: "string \<Rightarrow> double \<times> nat \<times> bool"
  isnan :: "double \<Rightarrow> bool"
  isinf :: "double \<Rightarrow> bool"
  signbit :: "double \<Rightarrow> bool"
  is_zero :: "double \<Rightarrow> bool"
  to_chars :: "double \<Rightarrow> string"
  double_of_int64 :: "int \<Rightarrow> double"

section \<open>Primitives\<close>

text \<open>
  \<^verbatim>\<open>std::isspace\<close> in the "C" locale (the program never calls \<^verbatim>\<open>setlocale\<close>): space and
  the five control characters 0x09 to 0x0D.
\<close>

definition isspace :: "char \<Rightarrow> bool" where
  "isspace c \<longleftrightarrow>
     c = CHR 0x20 \<or> c = CHR 0x09 \<or> c = CHR 0x0A \<or> c = CHR 0x0B \<or> c = CHR 0x0C \<or> c = CHR 0x0D"

text \<open>The two loops of \<^verbatim>\<open>trim_copy\<close>: the index \<open>b\<close> moves right, the index \<open>e\<close> moves left.\<close>

function trim_begin :: "string \<Rightarrow> nat \<Rightarrow> nat" where
  "trim_begin sv b = (if b < length sv \<and> isspace (sv ! b) then trim_begin sv (b + 1) else b)"
  by pat_completeness auto
termination
  by (relation "measure (\<lambda>(sv, b). length sv - b)") auto

function trim_end :: "string \<Rightarrow> nat \<Rightarrow> nat \<Rightarrow> nat" where
  "trim_end sv b e = (if e > b \<and> isspace (sv ! (e - 1)) then trim_end sv b (e - 1) else e)"
  by pat_completeness auto
termination
  by (relation "measure (\<lambda>(sv, b, e). e)") auto

definition substr :: "string \<Rightarrow> nat \<Rightarrow> nat \<Rightarrow> string" where
  "substr sv pos n = take n (drop pos sv)"

definition trim_copy :: "string \<Rightarrow> string" where
  "trim_copy sv =
     (let b = trim_begin sv 0;
          e = trim_end sv b (length sv)
      in substr sv b (e - b))"

text \<open>
  \<^verbatim>\<open>require_utf8\<close> converts the bytes to an ICU string and back, and throws when the
  round trip changes them.
\<close>

definition require_utf8 :: "lib \<Rightarrow> string \<Rightarrow> error + unit" where
  "require_utf8 L s = (if utf8_roundtrip L s \<noteq> s then Inl BadEncoding else Inr ())"

text \<open>
  \<^verbatim>\<open>base64_decode_strict\<close>: the four blank characters are dropped, \<^verbatim>\<open>EVP_DecodeBlock\<close>
  decodes the rest (\<open>None\<close> is its negative return value), and one byte is cut for each
  of the last two characters that is the padding sign.
\<close>

definition base64_decode_strict :: "lib \<Rightarrow> string \<Rightarrow> error + string" where
  "base64_decode_strict L b64 =
     (let s = filter (\<lambda>c. \<not> (c = CHR 0x20 \<or> c = CHR 0x09 \<or> c = CHR 0x0D \<or> c = CHR 0x0A)) b64
      in if s = [] then Inr []
         else case EVP_DecodeBlock L s of
                None \<Rightarrow> Inl BadBase64
              | Some out \<Rightarrow>
                  let pad = (if last s = CHR ''='' then 1 else 0)
                          + (if length s \<ge> 2 \<and> s ! (length s - 2) = CHR ''='' then 1 else (0::nat))
                  in if pad \<noteq> 0 \<and> length out < pad then Inl BadBase64
                     else Inr (take (length out - pad) out))"

definition is_hex :: "char \<Rightarrow> bool" where
  "is_hex c \<longleftrightarrow>
     (let n = (of_char c :: nat)
      in (48 \<le> n \<and> n \<le> 57) \<or> (97 \<le> n \<and> n \<le> 102) \<or> (65 \<le> n \<and> n \<le> 70))"

text \<open>\<^verbatim>\<open>std::tolower\<close> in the "C" locale: only the letters A to Z change.\<close>

definition tolower :: "char \<Rightarrow> char" where
  "tolower c =
     (let n = (of_char c :: nat) in if 65 \<le> n \<and> n \<le> 90 then char_of (n + 32) else c)"

text \<open>The loop of \<^verbatim>\<open>canonicalize_uuid\<close> over the positions \<open>i\<close>, \<open>i + 1\<close>, ... of the string.\<close>

fun uuid_loop :: "nat \<Rightarrow> string \<Rightarrow> error + string" where
  "uuid_loop i [] = Inr []"
| "uuid_loop i (c # cs) =
     (if i = 8 \<or> i = 13 \<or> i = 18 \<or> i = 23
      then (if c \<noteq> CHR ''-'' then Inl BadUuid
            else case uuid_loop (Suc i) cs of Inl e \<Rightarrow> Inl e | Inr r \<Rightarrow> Inr (c # r))
      else if \<not> is_hex c then Inl BadUuid
      else case uuid_loop (Suc i) cs of Inl e \<Rightarrow> Inl e | Inr r \<Rightarrow> Inr (tolower c # r))"

definition canonicalize_uuid :: "string \<Rightarrow> error + string" where
  "canonicalize_uuid inp =
     (let s = trim_copy inp in if length s \<noteq> 36 then Inl BadUuid else uuid_loop 0 s)"

subsection \<open>Decimal integers\<close>

definition isdigit :: "char \<Rightarrow> bool" where
  "isdigit c \<longleftrightarrow> (let n = (of_char c :: nat) in 48 \<le> n \<and> n \<le> 57)"

definition digits_value :: "string \<Rightarrow> int" where
  "digits_value ds = foldl (\<lambda>a c. 10 * a + (int (of_char c) - 48)) 0 ds"

text \<open>
  \<^verbatim>\<open>std::stoll(s, &idx, 10)\<close>, from the contract of \<^verbatim>\<open>strtoll\<close>: leading white space is
  skipped, one sign \<open>+\<close> or \<open>-\<close> may follow, then the longest run of decimal digits is
  read. \<open>None\<close> stands for both exceptions: no digit (\<^verbatim>\<open>invalid_argument\<close>) and a value
  outside the 64-bit signed range (\<^verbatim>\<open>out_of_range\<close>). Otherwise the result is the value
  and the number of characters read.
\<close>

definition stoll :: "string \<Rightarrow> (int \<times> nat) option" where
  "stoll s =
     (let ws = takeWhile isspace s;
          r1 = dropWhile isspace s;
          neg = (r1 \<noteq> [] \<and> hd r1 = CHR ''-'');
          sgn = (if r1 \<noteq> [] \<and> (hd r1 = CHR ''-'' \<or> hd r1 = CHR ''+'') then 1 else (0::nat));
          ds = takeWhile isdigit (drop sgn r1);
          v = (if neg then - digits_value ds else digits_value ds)
      in if ds = [] then None
         else if v < - (2 ^ 63) \<or> 2 ^ 63 - 1 < v then None
         else Some (v, length ws + sgn + length ds))"

function dec_digits :: "nat \<Rightarrow> string" where
  "dec_digits n =
     (if n < 10 then [char_of (48 + n)] else dec_digits (n div 10) @ [char_of (48 + n mod 10)])"
  by pat_completeness auto
termination
  by (relation "measure (\<lambda>n. n)") auto

text \<open>\<^verbatim>\<open>std::to_string\<close> of a signed 64-bit integer.\<close>

definition to_string :: "int \<Rightarrow> string" where
  "to_string x = (if x < 0 then CHR ''-'' # dec_digits (nat (- x)) else dec_digits (nat x))"

section \<open>Type tags and the typed hash\<close>

datatype LogicalType = NullT | BoolT | IntT | FloatT | TextT | BytesT | UuidT | JsonReservedT

datatype TagMapVersion = LegacyV02 | FelixV03

datatype HashFormatVersion = LegacyNoSep | FelixV03Sep

fun type_tag_byte :: "TagMapVersion \<Rightarrow> LogicalType \<Rightarrow> error + char" where
  "type_tag_byte LegacyV02 TextT = Inr (CHR 0x01)"
| "type_tag_byte LegacyV02 IntT = Inr (CHR 0x02)"
| "type_tag_byte LegacyV02 FloatT = Inr (CHR 0x03)"
| "type_tag_byte LegacyV02 BoolT = Inr (CHR 0x04)"
| "type_tag_byte LegacyV02 NullT = Inr (CHR 0x05)"
| "type_tag_byte LegacyV02 JsonReservedT = Inr (CHR 0x06)"
| "type_tag_byte LegacyV02 BytesT = Inl UnsupportedInLegacy"
| "type_tag_byte LegacyV02 UuidT = Inl UnsupportedInLegacy"
| "type_tag_byte FelixV03 NullT = Inr (CHR 0x00)"
| "type_tag_byte FelixV03 BoolT = Inr (CHR 0x01)"
| "type_tag_byte FelixV03 IntT = Inr (CHR 0x02)"
| "type_tag_byte FelixV03 FloatT = Inr (CHR 0x03)"
| "type_tag_byte FelixV03 TextT = Inr (CHR 0x04)"
| "type_tag_byte FelixV03 BytesT = Inr (CHR 0x05)"
| "type_tag_byte FelixV03 UuidT = Inr (CHR 0x06)"
| "type_tag_byte FelixV03 JsonReservedT = Inr (CHR 0x07)"

definition sha256_typed ::
  "lib \<Rightarrow> TagMapVersion \<Rightarrow> HashFormatVersion \<Rightarrow> LogicalType \<Rightarrow> string \<Rightarrow> error + string" where
  "sha256_typed L tagmap hfmt logical_type canon_bytes =
     (case type_tag_byte tagmap logical_type of
        Inl e \<Rightarrow> Inl e
      | Inr tag \<Rightarrow>
          Inr (sha256_bytes L
                 ([tag] @ (if hfmt = FelixV03Sep then [CHR 0x00] else []) @ canon_bytes)))"

definition logical_type_from_string :: "string \<Rightarrow> error + LogicalType" where
  "logical_type_from_string s =
     (if s = ''null'' then Inr NullT
      else if s = ''bool'' then Inr BoolT
      else if s = ''int'' then Inr IntT
      else if s = ''float'' then Inr FloatT
      else if s = ''text'' then Inr TextT
      else if s = ''bytes'' then Inr BytesT
      else if s = ''uuid'' then Inr UuidT
      else if s = ''json'' then Inr JsonReservedT
      else Inl ParseError)"

definition parse_type :: "string \<Rightarrow> error + LogicalType" where
  "parse_type s =
     (case logical_type_from_string (trim_copy s) of
        Inl e \<Rightarrow> Inl e
      | Inr t \<Rightarrow> if t = JsonReservedT then Inl ReservedType else Inr t)"

section \<open>Canonicalization\<close>

record CanonValue =
  logical_type :: LogicalType
  canon_text :: string
  canon_blob :: string
  hash :: string

text \<open>\<^verbatim>\<open>CanonValue cv{}; cv.logical_type = t;\<close> the digest starts as 32 zero bytes.\<close>

definition new_canon :: "LogicalType \<Rightarrow> CanonValue" where
  "new_canon t =
     \<lparr>logical_type = t, canon_text = [], canon_blob = [], hash = replicate 32 (CHR 0x00)\<rparr>"

definition strip_mantissa :: "string \<Rightarrow> string" where
  "strip_mantissa mant =
     (if CHR ''.'' \<in> set mant
      then (let m1 = rev (dropWhile (\<lambda>c. c = CHR ''0'') (rev mant))
            in if m1 \<noteq> [] \<and> last m1 = CHR ''.'' then butlast m1 else m1)
      else mant)"

definition canonicalize_float64 :: "lib \<Rightarrow> double \<Rightarrow> error + string" where
  "canonicalize_float64 L d =
     (if isnan L d then Inl BadFloat
      else if isinf L d then Inr (if signbit L d then ''-inf'' else ''inf'')
      else if is_zero L d then Inr ''0''
      else let s0 = map (\<lambda>c. if c = CHR ''E'' then CHR ''e'' else c) (to_chars L d);
               mant = takeWhile (\<lambda>c. c \<noteq> CHR ''e'') s0;
               ex = dropWhile (\<lambda>c. c \<noteq> CHR ''e'') s0;
               s = strip_mantissa mant @ ex
           in Inr (if s = ''-0'' then ''0'' else s))"

text \<open>
  The parsed JSON value of nlohmann's library, as far as the program inspects it. An
  integer is stored signed or unsigned, both in 64 bits.
\<close>

datatype json =
    JNull | JBoolean bool | JInteger "64 word" | JUnsigned "64 word" | JFloat double
  | JString string | JArray "json list" | JObject "(string \<times> json) list"

definition json_get_double :: "lib \<Rightarrow> json \<Rightarrow> double option" where
  "json_get_double L v =
     (case v of
        JInteger w \<Rightarrow> Some (double_of_int64 L (sint w))
      | JUnsigned w \<Rightarrow> Some (double_of_int64 L (uint w))
      | JFloat d \<Rightarrow> Some d
      | _ \<Rightarrow> None)"

definition json_get_string :: "json \<Rightarrow> string option" where
  "json_get_string v = (case v of JString s \<Rightarrow> Some s | _ \<Rightarrow> None)"

text \<open>The overload of \<^verbatim>\<open>canonicalize_typed_value\<close> that takes a parsed JSON value.\<close>

definition canonicalize_typed_value_json :: "lib \<Rightarrow> LogicalType \<Rightarrow> json \<Rightarrow> error + CanonValue" where
  "canonicalize_typed_value_json L t v =
     (let cv = new_canon t in
      case t of
        NullT \<Rightarrow> Inr (cv\<lparr>canon_text := ''null''\<rparr>)
      | BoolT \<Rightarrow>
          (case v of
             JBoolean b \<Rightarrow> Inr (cv\<lparr>canon_text := (if b then ''true'' else ''false'')\<rparr>)
           | _ \<Rightarrow> Inl BadBool)
      | IntT \<Rightarrow>
          (case v of
             JInteger w \<Rightarrow> Inr (cv\<lparr>canon_text := to_string (sint w)\<rparr>)
           | JUnsigned w \<Rightarrow> Inr (cv\<lparr>canon_text := to_string (sint w)\<rparr>)
           | _ \<Rightarrow> Inl BadInt)
      | FloatT \<Rightarrow>
          (case json_get_double L v of
             None \<Rightarrow> Inl BadFloat
           | Some d \<Rightarrow>
               (case canonicalize_float64 L d of
                  Inl e \<Rightarrow> Inl e
                | Inr s \<Rightarrow> Inr (cv\<lparr>canon_text := s\<rparr>)))
      | TextT \<Rightarrow>
          (case json_get_string v of
             None \<Rightarrow> Inl ParseError
           | Some raw \<Rightarrow>
               (case require_utf8 L raw of
                  Inl e \<Rightarrow> Inl e
                | Inr _ \<Rightarrow> Inr (cv\<lparr>canon_text := nfc_normalize_utf8 L (trim_copy raw)\<rparr>)))
      | UuidT \<Rightarrow>
          (case json_get_string v of
             None \<Rightarrow> Inl BadUuid
           | Some raw \<Rightarrow>
               (case require_utf8 L raw of
                  Inl e \<Rightarrow> Inl e
                | Inr _ \<Rightarrow>
                    (case canonicalize_uuid raw of
                       Inl e \<Rightarrow> Inl e
                     | Inr s \<Rightarrow> Inr (cv\<lparr>canon_text := s\<rparr>))))
      | BytesT \<Rightarrow>
          (case json_get_string v of
             None \<Rightarrow> Inl BadBase64
           | Some b64 \<Rightarrow>
               (case require_utf8 L b64 of
                  Inl e \<Rightarrow> Inl e
                | Inr _ \<Rightarrow>
                    (case base64_decode_strict L b64 of
                       Inl e \<Rightarrow> Inl e
                     | Inr bs \<Rightarrow> Inr (cv\<lparr>canon_blob := bs\<rparr>))))
      | JsonReservedT \<Rightarrow> Inl ReservedType)"

text \<open>
  \<^verbatim>\<open>std::strtod\<close> reads the C string, which ends at the first zero byte; it returns the
  value, the number of characters read and whether it set \<^verbatim>\<open>ERANGE\<close>.
\<close>

definition c_str :: "string \<Rightarrow> string" where
  "c_str s = takeWhile (\<lambda>c. c \<noteq> CHR 0x00) s"

text \<open>The overload of \<^verbatim>\<open>canonicalize_typed_value\<close> that takes the raw text of a value.\<close>

definition canonicalize_typed_value_raw :: "lib \<Rightarrow> LogicalType \<Rightarrow> string \<Rightarrow> error + CanonValue" where
  "canonicalize_typed_value_raw L t raw =
     (let cv = new_canon t in
      case t of
        NullT \<Rightarrow> Inr (cv\<lparr>canon_text := ''null''\<rparr>)
      | BoolT \<Rightarrow>
          (let s = trim_copy raw
           in if s \<noteq> ''true'' \<and> s \<noteq> ''false'' then Inl BadBool
              else Inr (cv\<lparr>canon_text := s\<rparr>))
      | IntT \<Rightarrow>
          (let s = trim_copy raw
           in if s = [] then Inl BadInt
              else case stoll s of
                     None \<Rightarrow> Inl BadInt
                   | Some (vll, idx) \<Rightarrow>
                       if idx \<noteq> length s then Inl BadInt
                       else Inr (cv\<lparr>canon_text := to_string vll\<rparr>))
      | FloatT \<Rightarrow>
          (let s = trim_copy raw
           in if s = ''inf'' \<or> s = ''+inf'' then Inr (cv\<lparr>canon_text := ''inf''\<rparr>)
              else if s = ''-inf'' then Inr (cv\<lparr>canon_text := ''-inf''\<rparr>)
              else if s = ''nan'' \<or> s = ''NaN'' \<or> s = ''NAN'' then Inl BadFloat
              else case strtod L (c_str s) of
                     (d, n, erange) \<Rightarrow>
                       if n = 0 \<or> n \<noteq> length (c_str s) \<or> erange then Inl BadFloat
                       else (case canonicalize_float64 L d of
                               Inl e \<Rightarrow> Inl e
                             | Inr c \<Rightarrow> Inr (cv\<lparr>canon_text := c\<rparr>)))
      | TextT \<Rightarrow>
          (case require_utf8 L raw of
             Inl e \<Rightarrow> Inl e
           | Inr _ \<Rightarrow> Inr (cv\<lparr>canon_text := nfc_normalize_utf8 L (trim_copy raw)\<rparr>))
      | UuidT \<Rightarrow>
          (case require_utf8 L raw of
             Inl e \<Rightarrow> Inl e
           | Inr _ \<Rightarrow>
               (case canonicalize_uuid raw of
                  Inl e \<Rightarrow> Inl e
                | Inr s \<Rightarrow> Inr (cv\<lparr>canon_text := s\<rparr>)))
      | BytesT \<Rightarrow>
          (case require_utf8 L raw of
             Inl e \<Rightarrow> Inl e
           | Inr _ \<Rightarrow>
               (case base64_decode_strict L raw of
                  Inl e \<Rightarrow> Inl e
                | Inr bs \<Rightarrow> Inr (cv\<lparr>canon_blob := bs\<rparr>)))
      | JsonReservedT \<Rightarrow> Inl ReservedType)"

text \<open>
  \<^verbatim>\<open>canonicalize_field_hash\<close> trims and normalizes its argument again. The prefix is built
  from the C string literal \<^verbatim>\<open>"field\0"\<close>, that is, the five bytes before its zero byte.
\<close>

definition canonicalize_field_hash :: "lib \<Rightarrow> string \<Rightarrow> string" where
  "canonicalize_field_hash L field_name =
     sha256_bytes L (''field'' @ nfc_normalize_utf8 L (trim_copy field_name))"

section \<open>The SQLite store\<close>

text \<open>
  The database is the content of its six tables, each a list of rows in insertion
  order. A table that was never created is the empty list, which makes
  \<^verbatim>\<open>CREATE TABLE IF NOT EXISTS\<close> the identity. Record ids are the caller's unsigned 64-bit
  numbers. Field and value ids are SQLite row ids; the narrowing of a field id to 32 bits
  on its way through C++ is the identity below \<open>2^31\<close> rows and is not modelled. A time
  stamp is a signed 64-bit number on which the program only compares, so it is an
  \<^typ>\<open>int\<close>.
\<close>

record FactRow =
  record_id :: "64 word"
  field_id :: nat
  value_id :: nat
  ts_ms :: int

record FieldsRow =
  f_field_id :: nat
  f_name_canon :: string
  f_hash :: string

record ValuesRow =
  v_value_id :: nat
  v_type_tag :: nat
  v_canon_text :: "string option"
  v_canon_blob :: "string option"
  v_hash :: string

record database =
  meta :: "(string \<times> string) list"
  fields_tab :: "FieldsRow list"
  f_values :: "ValuesRow list"
  records :: "(64 word \<times> int) list"
  facts :: "FactRow list"
  current_facts :: "FactRow list"

text \<open>The members of the class; Isabelle names cannot end in the underscore the C++ names have.\<close>

record FelixSqlite =
  db :: database
  tagmap :: TagMapVersion
  hashfmt :: HashFormatVersion
  null_value_id :: nat

text \<open>The row id SQLite gives a new row of an \<^verbatim>\<open>INTEGER PRIMARY KEY\<close> table: one more than the largest.\<close>

definition next_rowid :: "nat list \<Rightarrow> nat" where
  "next_rowid ids = Suc (fold max ids 0)"

subsection \<open>The meta table\<close>

definition meta_get :: "database \<Rightarrow> string \<Rightarrow> string option" where
  "meta_get d k = map_of (meta d) k"

text \<open>\<^verbatim>\<open>INSERT INTO meta(k,v) VALUES(?,?) ON CONFLICT(k) DO UPDATE SET v=excluded.v\<close>\<close>

definition meta_set :: "database \<Rightarrow> string \<Rightarrow> string \<Rightarrow> database" where
  "meta_set d k v =
     d\<lparr>meta := (if k \<in> fst ` set (meta d)
                 then map (\<lambda>(k', v'). if k' = k then (k', v) else (k', v')) (meta d)
                 else meta d @ [(k, v)])\<rparr>"

definition load_format_defaults :: "FelixSqlite \<Rightarrow> FelixSqlite" where
  "load_format_defaults s =
     (case (meta_get (db s) ''hash_format'', meta_get (db s) ''tag_map'') of
        (Some hv, Some tv) \<Rightarrow>
          s\<lparr>tagmap := (if tv = ''felix_v03'' then FelixV03 else LegacyV02),
            hashfmt := (if hv = ''felix_v03_sep'' then FelixV03Sep else LegacyNoSep)\<rparr>
      | _ \<Rightarrow> s\<lparr>tagmap := LegacyV02, hashfmt := LegacyNoSep\<rparr>)"

text \<open>The constructor: the members' initial values, then \<^verbatim>\<open>load_format_defaults\<close>.\<close>

definition open_store :: "database \<Rightarrow> FelixSqlite" where
  "open_store d =
     load_format_defaults
       \<lparr>db = d, tagmap = LegacyV02, hashfmt = LegacyNoSep, null_value_id = 0\<rparr>"

subsection \<open>Records, fields and values\<close>

text \<open>\<^verbatim>\<open>INSERT OR IGNORE INTO records(record_id, created_ts) VALUES(?,?)\<close>\<close>

definition ensure_record :: "FelixSqlite \<Rightarrow> 64 word \<Rightarrow> int \<Rightarrow> FelixSqlite" where
  "ensure_record s rid created_ts_ms =
     (if rid \<in> fst ` set (records (db s)) then s
      else s\<lparr>db := (db s)\<lparr>records := records (db s) @ [(rid, created_ts_ms)]\<rparr>\<rparr>)"

text \<open>
  \<^verbatim>\<open>INSERT OR IGNORE INTO fields(name_canon, hash)\<close>: the row is dropped when the hash, which
  is \<^verbatim>\<open>UNIQUE\<close>, is already there. The text is bound as a C string.
\<close>

definition insert_field_or_ignore :: "database \<Rightarrow> string \<Rightarrow> string \<Rightarrow> database" where
  "insert_field_or_ignore d canon h =
     (if h \<in> f_hash ` set (fields_tab d) then d
      else d\<lparr>fields_tab := fields_tab d @
             [\<lparr>f_field_id = next_rowid (map f_field_id (fields_tab d)),
               f_name_canon = c_str canon, f_hash = h\<rparr>]\<rparr>)"

definition get_or_create_field :: "lib \<Rightarrow> FelixSqlite \<Rightarrow> string \<Rightarrow> error + (nat \<times> FelixSqlite)" where
  "get_or_create_field L s field_name =
     (if length field_name > 256 then Inl FieldTooLong
      else case require_utf8 L field_name of
             Inl e \<Rightarrow> Inl e
           | Inr _ \<Rightarrow>
               let canon = nfc_normalize_utf8 L (trim_copy field_name);
                   h = canonicalize_field_hash L canon;
                   d = insert_field_or_ignore (db s) canon h
               in case find (\<lambda>r. f_hash r = h) (fields_tab d) of
                    Some r \<Rightarrow> Inr (f_field_id r, s\<lparr>db := d\<rparr>)
                  | None \<Rightarrow> Inl StorageError)"

text \<open>\<^verbatim>\<open>INSERT OR IGNORE INTO f_values(type_tag, canon_text, canon_blob, hash)\<close>\<close>

definition insert_value_or_ignore :: "database \<Rightarrow> char \<Rightarrow> CanonValue \<Rightarrow> database" where
  "insert_value_or_ignore d tag cv =
     (if hash cv \<in> v_hash ` set (f_values d) then d
      else d\<lparr>f_values := f_values d @
             [\<lparr>v_value_id = next_rowid (map v_value_id (f_values d)),
               v_type_tag = of_char tag,
               v_canon_text = (if logical_type cv = BytesT then None else Some (c_str (canon_text cv))),
               v_canon_blob = (if logical_type cv = BytesT then Some (canon_blob cv) else None),
               v_hash = hash cv\<rparr>]\<rparr>)"

definition get_or_create_value :: "lib \<Rightarrow> FelixSqlite \<Rightarrow> CanonValue \<Rightarrow> error + (nat \<times> FelixSqlite)" where
  "get_or_create_value L s cv_in =
     (if logical_type cv_in = TextT \<and> length (canon_text cv_in) > 1 * 1024 * 1024
      then Inl ValueTooLarge
      else if logical_type cv_in = BytesT \<and> length (canon_blob cv_in) > 4 * 1024 * 1024
      then Inl ValueTooLarge
      else let canon = (if logical_type cv_in = BytesT then canon_blob cv_in else canon_text cv_in)
           in case sha256_typed L (tagmap s) (hashfmt s) (logical_type cv_in) canon of
                Inl e \<Rightarrow> Inl e
              | Inr h \<Rightarrow>
                  (case type_tag_byte (tagmap s) (logical_type cv_in) of
                     Inl e \<Rightarrow> Inl e
                   | Inr tag \<Rightarrow>
                       let cv = cv_in\<lparr>hash := h\<rparr>;
                           d = insert_value_or_ignore (db s) tag cv
                       in case find (\<lambda>r. v_hash r = h) (f_values d) of
                            Some r \<Rightarrow> Inr (v_value_id r, s\<lparr>db := d\<rparr>)
                          | None \<Rightarrow> Inl StorageError))"

subsection \<open>Facts and the current view\<close>

definition same_pair :: "64 word \<Rightarrow> nat \<Rightarrow> FactRow \<Rightarrow> bool" where
  "same_pair r f g \<longleftrightarrow> record_id g = r \<and> field_id g = f"

definition get_current :: "FelixSqlite \<Rightarrow> 64 word \<Rightarrow> nat \<Rightarrow> (nat \<times> int) option" where
  "get_current s rid fid =
     (case find (same_pair rid fid) (current_facts (db s)) of
        Some c \<Rightarrow> Some (value_id c, ts_ms c)
      | None \<Rightarrow> None)"

text \<open>
  The three \<^verbatim>\<open>FOREIGN KEY\<close> clauses that \<^verbatim>\<open>facts\<close> and \<^verbatim>\<open>current_facts\<close> share; the
  constructor turns their enforcement on.
\<close>

definition fk_ok :: "database \<Rightarrow> FactRow \<Rightarrow> bool" where
  "fk_ok d f \<longleftrightarrow>
     record_id f \<in> fst ` set (records d) \<and>
     field_id f \<in> f_field_id ` set (fields_tab d) \<and>
     value_id f \<in> v_value_id ` set (f_values d)"

text \<open>
  \<^verbatim>\<open>INSERT INTO facts(record_id, field_id, value_id, ts) VALUES(?,?,?,?)\<close>: the primary key
  is \<^verbatim>\<open>(record_id, field_id, ts)\<close>.
\<close>

definition insert_fact :: "FelixSqlite \<Rightarrow> FactRow \<Rightarrow> error + FelixSqlite" where
  "insert_fact s f =
     (if \<exists>g \<in> set (facts (db s)). same_pair (record_id f) (field_id f) g \<and> ts_ms g = ts_ms f
      then Inl Duplicate
      else if \<not> fk_ok (db s) f then Inl StorageError
      else Inr (s\<lparr>db := (db s)\<lparr>facts := facts (db s) @ [f]\<rparr>\<rparr>))"

text \<open>
  \<^verbatim>\<open>INSERT INTO current_facts ... ON CONFLICT(record_id, field_id) DO UPDATE SET
  value_id=excluded.value_id, ts=excluded.ts WHERE excluded.ts >= current_facts.ts\<close>
\<close>

definition upsert_current_if_newer :: "FelixSqlite \<Rightarrow> FactRow \<Rightarrow> error + FelixSqlite" where
  "upsert_current_if_newer s f =
     (case find (same_pair (record_id f) (field_id f)) (current_facts (db s)) of
        None \<Rightarrow>
          if \<not> fk_ok (db s) f then Inl StorageError
          else Inr (s\<lparr>db := (db s)\<lparr>current_facts := current_facts (db s) @ [f]\<rparr>\<rparr>)
      | Some c \<Rightarrow>
          if ts_ms f \<ge> ts_ms c
          then (if \<not> fk_ok (db s) f then Inl StorageError
                else Inr (s\<lparr>db := (db s)\<lparr>current_facts :=
                       map (\<lambda>c. if same_pair (record_id f) (field_id f) c
                                then c\<lparr>value_id := value_id f, ts_ms := ts_ms f\<rparr> else c)
                           (current_facts (db s))\<rparr>\<rparr>))
          else Inr s)"

text \<open>\<^verbatim>\<open>SELECT record_id FROM current_facts WHERE field_id=? AND value_id=?\<close>\<close>

definition query_current_eq :: "FelixSqlite \<Rightarrow> nat \<Rightarrow> nat \<Rightarrow> 64 word list" where
  "query_current_eq s fid vid =
     map record_id (filter (\<lambda>c. field_id c = fid \<and> value_id c = vid) (current_facts (db s)))"

text \<open>
  \<^verbatim>\<open>SELECT DISTINCT record_id FROM facts WHERE field_id=? AND value_id=?\<close>: each record
  id once, at the place of its first row.
\<close>

definition query_ever_eq :: "FelixSqlite \<Rightarrow> nat \<Rightarrow> nat \<Rightarrow> 64 word list" where
  "query_ever_eq s fid vid =
     rev (remdups (rev (map record_id
       (filter (\<lambda>g. field_id g = fid \<and> value_id g = vid) (facts (db s))))))"

subsection \<open>Rebuilding the current view\<close>

text \<open>
  The inner query: \<^verbatim>\<open>MAX(ts)\<close> of the group of facts with the same
  \<^verbatim>\<open>(record_id, field_id)\<close>. It is only asked for the pair of an existing fact.
\<close>

definition group_max_ts :: "FactRow list \<Rightarrow> 64 word \<Rightarrow> nat \<Rightarrow> int" where
  "group_max_ts fs r f = Max (ts_ms ` set (filter (same_pair r f) fs))"

text \<open>
  The join keeps the facts whose time stamp is the maximum of their group. The statement
  has no \<^verbatim>\<open>ORDER BY\<close>, so the order in which the rows arrive is the query planner's; the
  list below has them in the order of the facts table, and every property stated of the
  rebuilt table is one of its rows as a multiset, never of their order.
\<close>

definition latest_facts :: "FactRow list \<Rightarrow> FactRow list" where
  "latest_facts fs = filter (\<lambda>f. ts_ms f = group_max_ts fs (record_id f) (field_id f)) fs"

text \<open>
  \<^verbatim>\<open>INSERT INTO current_facts ... SELECT ...\<close> row by row: a second row for a pair breaks
  the primary key of \<^verbatim>\<open>current_facts\<close>.
\<close>

fun insert_current_rows :: "database \<Rightarrow> FactRow list \<Rightarrow> FactRow list \<Rightarrow> error + FactRow list" where
  "insert_current_rows d cur [] = Inr cur"
| "insert_current_rows d cur (f # fs) =
     (if \<exists>c \<in> set cur. same_pair (record_id f) (field_id f) c then Inl Duplicate
      else if \<not> fk_ok d f then Inl StorageError
      else insert_current_rows d (cur @ [f]) fs)"

text \<open>
  \<^verbatim>\<open>rebuild_current_facts\<close> runs two statements outside any transaction: when the second
  fails, it alone is undone and the table stays empty.
\<close>

definition rebuild_current_facts :: "FelixSqlite \<Rightarrow> (error + unit) \<times> FelixSqlite" where
  "rebuild_current_facts s =
     (let d = (db s)\<lparr>current_facts := []\<rparr>
      in case insert_current_rows d [] (latest_facts (facts d)) of
           Inl e \<Rightarrow> (Inl e, s\<lparr>db := d\<rparr>)
         | Inr cur \<Rightarrow> (Inr (), s\<lparr>db := d\<lparr>current_facts := cur\<rparr>\<rparr>))"

subsection \<open>Schema creation and transactions\<close>

definition ensure_null_value :: "lib \<Rightarrow> FelixSqlite \<Rightarrow> (error + unit) \<times> FelixSqlite" where
  "ensure_null_value L s =
     (case get_or_create_value L s ((new_canon NullT)\<lparr>canon_text := ''null''\<rparr>) of
        Inl e \<Rightarrow> (Inl e, s)
      | Inr (vid, s') \<Rightarrow> (Inr (), s'\<lparr>null_value_id := vid\<rparr>))"

definition init_schema :: "lib \<Rightarrow> FelixSqlite \<Rightarrow> (error + unit) \<times> FelixSqlite" where
  "init_schema L s =
     (let d1 = meta_set (db s) ''felix_spec'' ''0.3'';
          d2 = meta_set d1 ''tag_map'' ''felix_v03'';
          d3 = meta_set d2 ''hash_format'' ''felix_v03_sep''
      in ensure_null_value L (load_format_defaults (s\<lparr>db := d3\<rparr>)))"

text \<open>
  \<^verbatim>\<open>with_tx\<close>: \<^verbatim>\<open>BEGIN IMMEDIATE\<close>, the body, \<^verbatim>\<open>COMMIT\<close>; an exception of the body rolls the
  database back to its state at \<^verbatim>\<open>BEGIN\<close> and is thrown again.
\<close>

definition with_tx :: "(FelixSqlite \<Rightarrow> error + FelixSqlite) \<Rightarrow> FelixSqlite \<Rightarrow> (error + unit) \<times> FelixSqlite" where
  "with_tx fn s = (case fn s of Inl e \<Rightarrow> (Inl e, s) | Inr s' \<Rightarrow> (Inr (), s'))"

section \<open>The engine: temporality policy and ingest\<close>

datatype TemporalityMode = EventDriven | ObservationDriven

definition parse_mode :: "string \<Rightarrow> error + TemporalityMode" where
  "parse_mode s =
     (if s = ''event'' then Inr EventDriven
      else if s = ''observe'' then Inr ObservationDriven
      else Inl ParseError)"

record IngestItem =
  field_name :: string
  item_value :: CanonValue

definition split_once :: "string \<Rightarrow> char \<Rightarrow> string \<times> string" where
  "split_once s c =
     (if c \<notin> set s then (s, [])
      else (takeWhile (\<lambda>x. x \<noteq> c) s, tl (dropWhile (\<lambda>x. x \<noteq> c) s)))"

text \<open>\<^verbatim>\<open>parse_typed_kv\<close> reads one token \<^verbatim>\<open>FieldName=type:value\<close>.\<close>

definition parse_typed_kv :: "lib \<Rightarrow> string \<Rightarrow> error + IngestItem" where
  "parse_typed_kv L token =
     (if CHR ''='' \<notin> set token then Inl ParseError
      else let field = trim_copy (takeWhile (\<lambda>x. x \<noteq> CHR ''='') token);
               rhs = tl (dropWhile (\<lambda>x. x \<noteq> CHR ''='') token);
               (type_s, value_s) = split_once rhs (CHR '':'')
           in case parse_type (trim_copy type_s) of
                Inl e \<Rightarrow> Inl e
              | Inr t \<Rightarrow>
                  (case canonicalize_typed_value_raw L t value_s of
                     Inl e \<Rightarrow> Inl e
                   | Inr cv \<Rightarrow> Inr \<lparr>field_name = field, item_value = cv\<rparr>))"

definition parse_cli_type_value :: "lib \<Rightarrow> string \<Rightarrow> error + CanonValue" where
  "parse_cli_type_value L tv =
     (let (type_s, value_s) = split_once tv (CHR '':'')
      in case parse_type (trim_copy type_s) of
           Inl e \<Rightarrow> Inl e
         | Inr t \<Rightarrow> canonicalize_typed_value_raw L t value_s)"

text \<open>One turn of the loop of \<^verbatim>\<open>ingest_items\<close>.\<close>

definition ingest_item ::
  "lib \<Rightarrow> 64 word \<Rightarrow> int \<Rightarrow> TemporalityMode \<Rightarrow> IngestItem \<Rightarrow> FelixSqlite \<Rightarrow> error + FelixSqlite" where
  "ingest_item L rid ts mode it s =
     (case get_or_create_field L s (field_name it) of
        Inl e \<Rightarrow> Inl e
      | Inr (fid, s1) \<Rightarrow>
          (case get_or_create_value L s1 (item_value it) of
             Inl e \<Rightarrow> Inl e
           | Inr (vid, s2) \<Rightarrow>
               if mode = EventDriven \<and>
                  (case get_current s2 rid fid of Some (v, t) \<Rightarrow> v = vid | None \<Rightarrow> False)
               then Inr s2
               else let f = \<lparr>record_id = rid, field_id = fid, value_id = vid, ts_ms = ts\<rparr>
                    in case insert_fact s2 f of
                         Inl e \<Rightarrow> Inl e
                       | Inr s3 \<Rightarrow> upsert_current_if_newer s3 f))"

fun ingest_loop ::
  "lib \<Rightarrow> 64 word \<Rightarrow> int \<Rightarrow> TemporalityMode \<Rightarrow> IngestItem list \<Rightarrow> FelixSqlite \<Rightarrow> error + FelixSqlite" where
  "ingest_loop L rid ts mode [] s = Inr s"
| "ingest_loop L rid ts mode (it # items) s =
     (case ingest_item L rid ts mode it s of
        Inl e \<Rightarrow> Inl e
      | Inr s' \<Rightarrow> ingest_loop L rid ts mode items s')"

definition ingest_items ::
  "lib \<Rightarrow> FelixSqlite \<Rightarrow> 64 word \<Rightarrow> int \<Rightarrow> TemporalityMode \<Rightarrow> IngestItem list \<Rightarrow>
   (error + unit) \<times> FelixSqlite" where
  "ingest_items L store rid ts mode items =
     with_tx (\<lambda>s. let s1 = ensure_record s rid ts
                  in if length items > 256 then Inl FieldsPerCallExceeded
                     else ingest_loop L rid ts mode items s1) store"

section \<open>The command line\<close>

text \<open>
  The commands of \<^verbatim>\<open>run_felix\<close> that write, and the two equality queries.
  The numbers of the command line are taken as parsed; the mode, the typed tokens and the
  typed value are the strings of \<^verbatim>\<open>argv\<close>.
\<close>

datatype command =
    Init
  | Ingest "64 word" int string "string list"
  | CurrentEq string string
  | EverEq string string
  | RebuildCurrent

fun parse_items :: "lib \<Rightarrow> string list \<Rightarrow> error + IngestItem list" where
  "parse_items L [] = Inr []"
| "parse_items L (tok # toks) =
     (case parse_typed_kv L tok of
        Inl e \<Rightarrow> Inl e
      | Inr it \<Rightarrow>
          (case parse_items L toks of Inl e \<Rightarrow> Inl e | Inr its \<Rightarrow> Inr (it # its)))"

text \<open>The branch of \<^verbatim>\<open>current_eq\<close> and \<^verbatim>\<open>ever_eq\<close>; no transaction is open.\<close>

definition run_query ::
  "lib \<Rightarrow> bool \<Rightarrow> string \<Rightarrow> string \<Rightarrow> FelixSqlite \<Rightarrow> (error + 64 word list) \<times> FelixSqlite" where
  "run_query L current field typed_value store =
     (case get_or_create_field L store field of
        Inl e \<Rightarrow> (Inl e, store)
      | Inr (fid, s1) \<Rightarrow>
          (case parse_cli_type_value L typed_value of
             Inl e \<Rightarrow> (Inl e, s1)
           | Inr cv \<Rightarrow>
               (case get_or_create_value L s1 cv of
                  Inl e \<Rightarrow> (Inl e, s1)
                | Inr (vid, s2) \<Rightarrow>
                    (Inr (if current then query_current_eq s2 fid vid
                          else query_ever_eq s2 fid vid), s2))))"

text \<open>
  \<^verbatim>\<open>run_felix\<close> opens the store, calls \<^verbatim>\<open>init_schema\<close> whatever the command is, and
  runs the command. The result is what the command prints (record ids, for a query) or
  the error, and the database the process leaves behind.
\<close>

definition run_felix :: "lib \<Rightarrow> database \<Rightarrow> command \<Rightarrow> (error + 64 word list) \<times> database" where
  "run_felix L d cmd =
     (case init_schema L (open_store d) of
        (Inl e, store) \<Rightarrow> (Inl e, db store)
      | (Inr _, store) \<Rightarrow>
          (case cmd of
             Init \<Rightarrow> (Inr [], db store)
           | Ingest rid ts mode_s toks \<Rightarrow>
               (if toks = [] then (Inl ParseError, db store)
                else case parse_mode mode_s of
                       Inl e \<Rightarrow> (Inl e, db store)
                     | Inr mode \<Rightarrow>
                         (case parse_items L toks of
                            Inl e \<Rightarrow> (Inl e, db store)
                          | Inr items \<Rightarrow>
                              (case ingest_items L store rid ts mode items of
                                 (Inl e, s') \<Rightarrow> (Inl e, db s')
                               | (Inr _, s') \<Rightarrow> (Inr [], db s'))))
           | CurrentEq field tv \<Rightarrow>
               (case run_query L True field tv store of (r, s') \<Rightarrow> (r, db s'))
           | EverEq field tv \<Rightarrow>
               (case run_query L False field tv store of (r, s') \<Rightarrow> (r, db s'))
           | RebuildCurrent \<Rightarrow>
               (case rebuild_current_facts store of
                  (Inl e, s') \<Rightarrow> (Inl e, db s')
                | (Inr _, s') \<Rightarrow> (Inr [], db s'))))"

section \<open>Notions used by the properties\<close>

subsection \<open>Sequences of ingest calls\<close>

record ingest_call =
  call_record :: "64 word"
  call_ts :: int
  call_mode :: TemporalityMode
  call_items :: "IngestItem list"

text \<open>
  Every call of the list is run in turn. A call that fails leaves the store as it was
  (\<^const>\<open>with_tx\<close>), so the stores reached by all lists of calls are those reached by
  the lists of successful calls.
\<close>

fun run_ingests :: "lib \<Rightarrow> FelixSqlite \<Rightarrow> ingest_call list \<Rightarrow> FelixSqlite" where
  "run_ingests L s [] = s"
| "run_ingests L s (c # cs) =
     run_ingests L (snd (ingest_items L s (call_record c) (call_ts c) (call_mode c) (call_items c))) cs"

subsection \<open>The current view against the log\<close>

text \<open>
  The current view is right for the pair of the fact \<open>g\<close>: exactly one current row has
  the pair, its time stamp is the maximum over the facts of the pair, and every
  fact of the pair at that time stamp has the current row's value.
\<close>

definition current_is_max_for :: "database \<Rightarrow> FactRow \<Rightarrow> bool" where
  "current_is_max_for d g \<longleftrightarrow>
     (let r = record_id g; f = field_id g;
          cs = filter (same_pair r f) (current_facts d);
          gs = filter (same_pair r f) (facts d)
      in length cs = 1 \<and>
         ts_ms (hd cs) = Max (ts_ms ` set gs) \<and>
         list_all (\<lambda>h. ts_ms h \<noteq> ts_ms (hd cs) \<or> value_id h = value_id (hd cs)) gs \<and>
         list_ex (\<lambda>h. ts_ms h = ts_ms (hd cs) \<and> value_id h = value_id (hd cs)) gs)"

definition current_is_max :: "database \<Rightarrow> bool" where
  "current_is_max d \<longleftrightarrow> list_all (current_is_max_for d) (facts d)"

text \<open>
  The consistency of the two tables that the ingest keeps: the primary keys of both,
  every current row is a row of the log, every fact has a current row of its pair that
  is not older, and the foreign keys of the facts.
\<close>

definition fact_key :: "FactRow \<Rightarrow> 64 word \<times> nat \<times> int" where
  "fact_key g = (record_id g, field_id g, ts_ms g)"

definition pair_key :: "FactRow \<Rightarrow> 64 word \<times> nat" where
  "pair_key g = (record_id g, field_id g)"

definition covered :: "FactRow list \<Rightarrow> FactRow \<Rightarrow> bool" where
  "covered cs g \<longleftrightarrow> list_ex (\<lambda>c. pair_key c = pair_key g \<and> ts_ms g \<le> ts_ms c) cs"

definition view_ok :: "FactRow list \<Rightarrow> FactRow list \<Rightarrow> bool" where
  "view_ok fs cs \<longleftrightarrow>
     distinct (map fact_key fs) \<and>
     distinct (map pair_key cs) \<and>
     list_all (\<lambda>c. c \<in> set fs) cs \<and>
     list_all (covered cs) fs"

definition wf_db :: "database \<Rightarrow> bool" where
  "wf_db d \<longleftrightarrow> view_ok (facts d) (current_facts d) \<and> list_all (fk_ok d) (facts d)"

subsection \<open>The facts of a record under a field name\<close>

text \<open>\<^verbatim>\<open>SELECT field_id FROM fields WHERE hash=?\<close> for the hash that interning gives the name.\<close>

definition field_id_of :: "lib \<Rightarrow> database \<Rightarrow> string \<Rightarrow> nat option" where
  "field_id_of L d name =
     (let canon = nfc_normalize_utf8 L (trim_copy name);
          h = canonicalize_field_hash L canon
      in map_option f_field_id (find (\<lambda>r. f_hash r = h) (fields_tab d)))"

definition pair_facts :: "lib \<Rightarrow> database \<Rightarrow> 64 word \<Rightarrow> string \<Rightarrow> FactRow list" where
  "pair_facts L d r name =
     (case field_id_of L d name of
        None \<Rightarrow> []
      | Some fid \<Rightarrow> filter (same_pair r fid) (facts d))"

subsection \<open>Accepted integer tokens\<close>

text \<open>
  A token is an optional sign \<open>+\<close> or \<open>-\<close> and then one or more decimal digits, with a
  value in the signed 64-bit range.
\<close>

definition int_token_ok :: "string \<Rightarrow> bool" where
  "int_token_ok s \<longleftrightarrow>
     (let sgn = (if s \<noteq> [] \<and> (hd s = CHR ''-'' \<or> hd s = CHR ''+'') then 1 else (0::nat));
          ds = drop sgn s;
          v = (if s \<noteq> [] \<and> hd s = CHR ''-'' then - digits_value ds else digits_value ds)
      in ds \<noteq> [] \<and> list_all isdigit ds \<and> - (2 ^ 63) \<le> v \<and> v \<le> 2 ^ 63 - 1)"

definition int_token_value :: "string \<Rightarrow> int" where
  "int_token_value s =
     (if s \<noteq> [] \<and> hd s = CHR ''-'' then - digits_value (tl s)
      else if s \<noteq> [] \<and> hd s = CHR ''+'' then digits_value (tl s)
      else digits_value s)"

subsection \<open>Concrete inputs\<close>

text \<open>
  An instance of the library routines for running the model on ASCII inputs without
  floats. On ASCII, NFC and the UTF-8 round trip are the identity. The digest is replaced
  by the identity, which never maps two inputs to one output. The decoder is the
  standard base-64 alphabet, three bytes for four characters, the padding sign counting
  as zero bits, as \<^verbatim>\<open>EVP_DecodeBlock\<close> does. Only the closed evaluations below use this
  instance; every other theorem holds for all library routines.
\<close>

definition b64_index :: "char \<Rightarrow> nat option" where
  "b64_index c =
     (let n = (of_char c :: nat)
      in if 65 \<le> n \<and> n \<le> 90 then Some (n - 65)
         else if 97 \<le> n \<and> n \<le> 122 then Some (n - 71)
         else if 48 \<le> n \<and> n \<le> 57 then Some (n + 4)
         else if c = CHR ''+'' then Some 62
         else if c = CHR ''/'' then Some 63
         else if c = CHR ''='' then Some 0
         else None)"

fun b64_blocks :: "string \<Rightarrow> string option" where
  "b64_blocks [] = Some []"
| "b64_blocks (a # b # c # d # r) =
     (case (b64_index a, b64_index b, b64_index c, b64_index d, b64_blocks r) of
        (Some x, Some y, Some z, Some w, Some rest) \<Rightarrow>
          (let n = ((x * 64 + y) * 64 + z) * 64 + w
           in Some (char_of (n div 65536) # char_of (n div 256 mod 256) # char_of (n mod 256) # rest))
      | _ \<Rightarrow> None)"
| "b64_blocks _ = None"

definition ascii_lib :: lib where
  "ascii_lib =
     \<lparr>sha256_bytes = (\<lambda>bs. bs),
      nfc_normalize_utf8 = (\<lambda>s. s),
      utf8_roundtrip = (\<lambda>s. s),
      EVP_DecodeBlock = b64_blocks,
      strtod = (\<lambda>s. (undefined, 0, False)),
      isnan = (\<lambda>d. False),
      isinf = (\<lambda>d. False),
      signbit = (\<lambda>d. False),
      is_zero = (\<lambda>d. False),
      to_chars = (\<lambda>d. []),
      double_of_int64 = (\<lambda>i. undefined)\<rparr>"

definition empty_db :: database where
  "empty_db =
     \<lparr>meta = [], fields_tab = [], f_values = [], records = [], facts = [], current_facts = []\<rparr>"

text \<open>A database written by the earlier format: its meta rows name the legacy tag map and hash format.\<close>

definition legacy_db :: database where
  "legacy_db = empty_db\<lparr>meta := [(''tag_map'', ''legacy_v02''), (''hash_format'', ''legacy_no_sep'')]\<rparr>"

text \<open>The store of a new database file after \<^verbatim>\<open>init\<close>.\<close>

definition fresh_store :: "lib \<Rightarrow> FelixSqlite" where
  "fresh_store L = snd (init_schema L (open_store empty_db))"

text \<open>An item whose value is a text that is already in canonical form.\<close>

definition text_item :: "string \<Rightarrow> string \<Rightarrow> IngestItem" where
  "text_item n v = \<lparr>field_name = n, item_value = (new_canon TextT)\<lparr>canon_text := v\<rparr>\<rparr>"

text \<open>The current rows of a record under a field name.\<close>

definition pair_current :: "lib \<Rightarrow> database \<Rightarrow> 64 word \<Rightarrow> string \<Rightarrow> FactRow list" where
  "pair_current L d r name =
     (case field_id_of L d name of
        None \<Rightarrow> []
      | Some fid \<Rightarrow> filter (same_pair r fid) (current_facts d))"

text \<open>
  Three calls for one record: field \<open>A\<close> at 2000, field \<open>B\<close> at 2500, field \<open>A\<close> again at
  3000 with another value; and the store they leave, with its current view replaced by
  a view that is out of date (the first fact alone).
\<close>

definition three_calls :: "ingest_call list" where
  "three_calls =
     [\<lparr>call_record = 1, call_ts = 2000, call_mode = EventDriven, call_items = [text_item ''A'' ''x'']\<rparr>,
      \<lparr>call_record = 1, call_ts = 2500, call_mode = EventDriven, call_items = [text_item ''B'' ''x'']\<rparr>,
      \<lparr>call_record = 1, call_ts = 3000, call_mode = EventDriven, call_items = [text_item ''A'' ''y'']\<rparr>]"

definition stale_store :: FelixSqlite where
  "stale_store =
     (let s = run_ingests ascii_lib (fresh_store ascii_lib) three_calls
      in s\<lparr>db := (db s)\<lparr>current_facts :=
                [\<lparr>record_id = 1, field_id = 1, value_id = 2, ts_ms = 2000\<rparr>]\<rparr>\<rparr>)"

text \<open>
  The store after one ingest for record 1 of \<open>A = y\<close>, at 500 and at 5000: for a later
  ingest at 1000 or 2000 the first holds an older fact of the pair, the second a newer one.
\<close>

definition old_store :: FelixSqlite where
  "old_store = snd (ingest_items ascii_lib (fresh_store ascii_lib) 1 500 EventDriven [text_item ''A'' ''y''])"

definition late_store :: FelixSqlite where
  "late_store = snd (ingest_items ascii_lib (fresh_store ascii_lib) 1 5000 EventDriven [text_item ''A'' ''y''])"

declare trim_begin.simps [simp del] trim_end.simps [simp del]

lemma trim_begin_takeWhile:
  "b \<le> length sv \<Longrightarrow> trim_begin sv b = b + length (takeWhile isspace (drop b sv))"
proof (induction sv b rule: trim_begin.induct)
  case (1 sv b)
  show ?case
  proof (cases "b < length sv \<and> isspace (sv ! b)")
    case True
    then have d: "drop b sv = sv ! b # drop (Suc b) sv"
      by (simp add: Cons_nth_drop_Suc)
    from True "1.IH" have "trim_begin sv (b + 1) = b + 1 + length (takeWhile isspace (drop (b + 1) sv))"
      by simp
    with True d show ?thesis
      by (simp add: trim_begin.simps [of sv b])
  next
    case False
    show ?thesis
    proof (cases "b < length sv")
      case True
      with False have "\<not> isspace (sv ! b)" by simp
      moreover from True have "drop b sv = sv ! b # drop (Suc b) sv"
        by (simp add: Cons_nth_drop_Suc)
      ultimately show ?thesis using False
        by (simp add: trim_begin.simps [of sv b])
    next
      case False
      with "1.prems" show ?thesis
        by (subst trim_begin.simps) simp
    qed
  qed
qed

lemma trim_end_takeWhile:
  "b \<le> e \<Longrightarrow> e \<le> length sv \<Longrightarrow>
   trim_end sv b e = e - length (takeWhile isspace (rev (take (e - b) (drop b sv))))"
proof (induction sv b e rule: trim_end.induct)
  case (1 sv b e)
  show ?case
  proof (cases "e > b")
    case False
    with "1.prems" show ?thesis
      by (subst trim_end.simps) simp
  next
    case True
    then obtain k where k: "e - b = Suc k" "e - 1 - b = k"
      by (cases "e - b") auto
    from True "1.prems" have lt: "b + k < length sv" and ek: "e - 1 = b + k"
      using k by auto
    have tk: "take (Suc k) (drop b sv) = take k (drop b sv) @ [sv ! (e - 1)]"
      using lt ek by (simp add: take_Suc_conv_app_nth)
    show ?thesis
    proof (cases "isspace (sv ! (e - 1))")
      case False
      with True k tk show ?thesis
        by (simp add: trim_end.simps [of sv b e])
    next
      case sp: True
      from True "1.prems" have "b \<le> e - 1" "e - 1 \<le> length sv" by auto
      with "1.IH" True sp
      have "trim_end sv b (e - 1) =
              e - 1 - length (takeWhile isspace (rev (take (e - 1 - b) (drop b sv))))"
        by simp
      moreover have "length (takeWhile isspace (rev (take k (drop b sv)))) \<le> k"
        by (rule order_trans [OF length_takeWhile_le]) simp
      ultimately show ?thesis using True sp k tk
        by (simp add: trim_end.simps [of sv b e])
    qed
  qed
qed

lemma trim_copy_dropWhile:
  "trim_copy sv = rev (dropWhile isspace (rev (dropWhile isspace sv)))"
proof -
  let ?b = "length (takeWhile isspace sv)"
  let ?r = "dropWhile isspace sv"
  have b: "trim_begin sv 0 = ?b"
    using trim_begin_takeWhile [of 0 sv] by simp
  have ble: "?b \<le> length sv" by (rule length_takeWhile_le)
  have dr: "drop ?b sv = ?r" by (rule dropWhile_eq_drop [symmetric])
  have lr: "length ?r = length sv - ?b"
    using dr [symmetric] by simp
  have e: "trim_end sv ?b (length sv) = length sv - length (takeWhile isspace (rev ?r))"
    using trim_end_takeWhile [OF ble order_refl] dr lr by simp
  have "rev (dropWhile isspace (rev ?r)) = take (length ?r - length (takeWhile isspace (rev ?r))) ?r"
    by (simp add: dropWhile_eq_drop [of isspace "rev ?r"] rev_drop)
  moreover have "length (takeWhile isspace (rev ?r)) \<le> length ?r"
    by (rule order_trans [OF length_takeWhile_le]) simp
  ultimately show ?thesis
    using b e dr lr ble by (simp add: trim_copy_def substr_def Let_def add.commute)
qed


section \<open>Trimming\<close>

text \<open>
  C7 (amended). For every input, \<^const>\<open>trim_copy\<close> removes from both ends exactly the bytes
  that \<^verbatim>\<open>std::isspace\<close> accepts in the "C" locale, which are six: space, tab, line feed,
  vertical tab, form feed and carriage return. Nothing else is removed and nothing inside
  the string changes.
\<close>

theorem trim_copy_strips_isspace:
  "trim_copy sv = rev (dropWhile isspace (rev (dropWhile isspace sv))) \<and>
   (isspace c \<longleftrightarrow> c \<in> {CHR 0x20, CHR 0x09, CHR 0x0A, CHR 0x0B, CHR 0x0C, CHR 0x0D})"
  by (simp add: trim_copy_dropWhile isspace_def)

theorem trim_copy_strips_isspace_witness:
  "trim_copy [CHR 0x20, CHR 0x09, CHR ''a'', CHR 0x20, CHR ''b'', CHR 0x0D, CHR 0x0A] = ''a b'' \<and>
   isspace (CHR 0x0B) \<and> \<not> isspace (CHR ''a'')"
  using trim_copy_strips_isspace [of "[CHR 0x20, CHR 0x09, CHR ''a'', CHR 0x20, CHR ''b'', CHR 0x0D, CHR 0x0A]" "CHR 0x0B"]
        trim_copy_strips_isspace [of "[]" "CHR ''a''"]
  by (simp add: isspace_def)

text \<open>
  C7 as stated fails: a vertical tab at the front and a form feed at the end are removed.
\<close>

theorem trim_copy_keeps_vt_ff_counterexample:
  "trim_copy [CHR 0x0B, CHR ''a'', CHR 0x0C] = ''a''"
  by (simp add: trim_copy_dropWhile isspace_def)

lemma trim_copy_prefix:
  "\<exists>post. dropWhile isspace sv = trim_copy sv @ post"
proof -
  let ?r = "dropWhile isspace sv"
  have "rev (dropWhile isspace (rev ?r)) @ rev (takeWhile isspace (rev ?r)) =
          rev (takeWhile isspace (rev ?r) @ dropWhile isspace (rev ?r))"
    by (simp only: rev_append)
  also have "\<dots> = ?r"
    by (simp only: takeWhile_dropWhile_id rev_rev_ident)
  finally have "?r = rev (dropWhile isspace (rev ?r)) @ rev (takeWhile isspace (rev ?r))"
    by (rule sym)
  then show ?thesis
    unfolding trim_copy_dropWhile by blast
qed

lemma trim_copy_hd_not_space:
  assumes "trim_copy sv \<noteq> []"
  shows "\<not> isspace (hd (trim_copy sv))"
proof -
  obtain post where p: "dropWhile isspace sv = trim_copy sv @ post"
    using trim_copy_prefix by blast
  with assms have ne: "dropWhile isspace sv \<noteq> []" by auto
  from p assms have "hd (dropWhile isspace sv) = hd (trim_copy sv)" by simp
  with hd_dropWhile [OF ne] show ?thesis by simp
qed

section \<open>Canonical form of Null\<close>

text \<open>
  C6 (amended). The canonical form of a Null value is the four bytes \<open>null\<close>, whatever the
  payload, in the structured (JSON) path and in the raw-text path.
\<close>

theorem null_canonical_form:
  "canonicalize_typed_value_raw L NullT raw = Inr ((new_canon NullT)\<lparr>canon_text := ''null''\<rparr>) \<and>
   canonicalize_typed_value_json L NullT v = Inr ((new_canon NullT)\<lparr>canon_text := ''null''\<rparr>) \<and>
   length (canon_text ((new_canon NullT)\<lparr>canon_text := ''null''\<rparr>)) = 4"
  by (simp add: canonicalize_typed_value_raw_def canonicalize_typed_value_json_def)

theorem null_canonical_form_witness:
  "canonicalize_typed_value_raw ascii_lib NullT ''ignored'' =
     Inr \<lparr>logical_type = NullT, canon_text = ''null'', canon_blob = [], hash = replicate 32 (CHR 0x00)\<rparr> \<and>
   canonicalize_typed_value_json ascii_lib NullT (JString ''ignored'') =
     Inr \<lparr>logical_type = NullT, canon_text = ''null'', canon_blob = [], hash = replicate 32 (CHR 0x00)\<rparr>"
  using null_canonical_form [of ascii_lib "''ignored''" "JString ''ignored''"]
  by (simp add: new_canon_def)

text \<open>C6 as stated fails on the count: no Null value canonicalizes to three bytes.\<close>

theorem null_three_bytes_counterexample:
  "\<not> (\<exists>cv. canonicalize_typed_value_raw ascii_lib NullT ''x'' = Inr cv \<and> length (canon_text cv) = 3)"
  by (auto simp add: canonicalize_typed_value_raw_def)

section \<open>Raw integers\<close>

lemma length_takeWhile_eq_iff: "length (takeWhile P xs) = length xs \<longleftrightarrow> list_all P xs"
proof
  assume "length (takeWhile P xs) = length xs"
  then have "takeWhile P xs = xs"
    by (metis append_eq_conv_conj takeWhile_dropWhile_id take_all_iff order_refl)
  then show "list_all P xs" by (simp add: takeWhile_eq_all_conv list_all_iff)
next
  assume "list_all P xs"
  then have "\<forall>x\<in>set xs. P x" by (simp add: list_all_iff)
  then have "takeWhile P xs = xs" by (simp only: takeWhile_eq_all_conv)
  then show "length (takeWhile P xs) = length xs" by (rule arg_cong)
qed

lemma stoll_no_space:
  assumes "s \<noteq> []" "\<not> isspace (hd s)"
  shows "stoll s =
     (let sgn = (if hd s = CHR ''-'' \<or> hd s = CHR ''+'' then 1 else (0::nat));
          ds = takeWhile isdigit (drop sgn s);
          v = (if hd s = CHR ''-'' then - digits_value ds else digits_value ds)
      in if ds = [] then None
         else if v < - (2 ^ 63) \<or> 2 ^ 63 - 1 < v then None
         else Some (v, sgn + length ds))"
proof -
  from assms have "takeWhile isspace s = []" "dropWhile isspace s = s"
    by (cases s; simp)+
  with assms(1) show ?thesis
    by (simp add: stoll_def Let_def)
qed

lemma int_raw_nonempty:
  assumes ne: "s \<noteq> []" and nsp: "\<not> isspace (hd s)"
  shows "(case stoll s of
            None \<Rightarrow> Inl BadInt
          | Some (vll, idx) \<Rightarrow>
              if idx \<noteq> length s then Inl BadInt
              else Inr (cv\<lparr>canon_text := to_string vll\<rparr>)) =
         (if int_token_ok s then Inr (cv\<lparr>canon_text := to_string (int_token_value s)\<rparr>)
          else Inl BadInt)"
proof -
  define sgn where "sgn = (if hd s = CHR ''-'' \<or> hd s = CHR ''+'' then 1 else (0::nat))"
  define ds where "ds = drop sgn s"
  define tw where "tw = takeWhile isdigit ds"
  have sl: "sgn \<le> length s" using ne by (cases s) (auto simp: sgn_def)
  have len: "length s = sgn + length ds" using sl by (simp add: ds_def)
  have tl: "sgn = 1 \<Longrightarrow> ds = tl s" by (simp add: ds_def drop_Suc)
  have z: "sgn = 0 \<Longrightarrow> ds = s" by (simp add: ds_def)
  have full: "(sgn + length tw = length s) = list_all isdigit ds"
    using len by (simp add: tw_def length_takeWhile_eq_iff)
  have st: "stoll s =
      (let v = (if hd s = CHR ''-'' then - digits_value tw else digits_value tw)
       in if tw = [] then None
          else if v < - (2 ^ 63) \<or> 2 ^ 63 - 1 < v then None
          else Some (v, sgn + length tw))"
    using stoll_no_space [OF ne nsp] by (simp add: Let_def sgn_def ds_def tw_def)
  have ok: "int_token_ok s =
      (let v = (if hd s = CHR ''-'' then - digits_value ds else digits_value ds)
       in ds \<noteq> [] \<and> list_all isdigit ds \<and> - (2 ^ 63) \<le> v \<and> v \<le> 2 ^ 63 - 1)"
    using ne by (simp add: int_token_ok_def Let_def sgn_def ds_def)
  have val: "int_token_value s = (if hd s = CHR ''-'' then - digits_value ds else digits_value ds)"
    using ne tl z by (auto simp: int_token_value_def sgn_def)
  show ?thesis
  proof (cases "list_all isdigit ds")
    case True
    then have "tw = ds" by (simp add: tw_def takeWhile_eq_all_conv list_all_iff)
    with True full show ?thesis
      unfolding st ok val by (auto simp: Let_def not_less)
  next
    case False
    with full have "sgn + length tw \<noteq> length s" by simp
    with False show ?thesis
      unfolding st ok by (auto simp: Let_def)
  qed
qed

text \<open>
  C8 (amended). Raw-text canonicalization of an Int accepts the token (after the outer
  trim) exactly when it is an optional sign, \<open>+\<close> or \<open>-\<close>, followed by one or more decimal
  digits whose value is in the signed 64-bit range; the canonical text is then the
  minimal decimal rendering of the value, so a leading \<open>+\<close> is accepted and dropped.
  Every other token fails with \<open>BadInt\<close>.
\<close>

theorem int_raw_accepts_signed_decimal:
  "canonicalize_typed_value_raw L IntT raw =
     (if int_token_ok (trim_copy raw)
      then Inr ((new_canon IntT)\<lparr>canon_text := to_string (int_token_value (trim_copy raw))\<rparr>)
      else Inl BadInt)"
proof (cases "trim_copy raw = []")
  case True
  then show ?thesis
    by (simp add: canonicalize_typed_value_raw_def int_token_ok_def)
next
  case False
  let ?s = "trim_copy raw"
  have "canonicalize_typed_value_raw L IntT raw =
          (case stoll ?s of
             None \<Rightarrow> Inl BadInt
           | Some (vll, idx) \<Rightarrow>
               if idx \<noteq> length ?s then Inl BadInt
               else Inr ((new_canon IntT)\<lparr>canon_text := to_string vll\<rparr>))"
    using False by (simp add: canonicalize_typed_value_raw_def Let_def)
  also have "\<dots> =
          (if int_token_ok ?s
           then Inr ((new_canon IntT)\<lparr>canon_text := to_string (int_token_value ?s)\<rparr>)
           else Inl BadInt)"
    by (rule int_raw_nonempty [OF False trim_copy_hd_not_space [OF False]])
  finally show ?thesis .
qed

theorem int_raw_accepts_signed_decimal_witness:
  "canonicalize_typed_value_raw ascii_lib IntT '' -0012 '' = Inr ((new_canon IntT)\<lparr>canon_text := ''-12''\<rparr>) \<and>
   canonicalize_typed_value_raw ascii_lib IntT ''1 2'' = Inl BadInt"
proof -
  have a: "int_token_ok (trim_copy '' -0012 '')" by code_simp
  have b: "to_string (int_token_value (trim_copy '' -0012 '')) = ''-12''" by code_simp
  have c: "\<not> int_token_ok (trim_copy ''1 2'')" by code_simp
  show ?thesis
    using int_raw_accepts_signed_decimal [of ascii_lib "'' -0012 ''"]
          int_raw_accepts_signed_decimal [of ascii_lib "''1 2''"] a b c
    by simp
qed

text \<open>C8 as stated fails: the token \<open>+5\<close> is accepted, with canonical text \<open>5\<close>.\<close>

theorem int_raw_rejects_plus_counterexample:
  "canonicalize_typed_value_raw ascii_lib IntT ''+5'' = Inr ((new_canon IntT)\<lparr>canon_text := ''5''\<rparr>)"
  by code_simp


lemmas felix_eval =
  ingest_items_def with_tx_def ensure_record_def ingest_item_def get_or_create_field_def
  get_or_create_value_def insert_field_or_ignore_def insert_value_or_ignore_def require_utf8_def
  canonicalize_field_hash_def sha256_typed_def get_current_def insert_fact_def
  upsert_current_if_newer_def fk_ok_def same_pair_def next_rowid_def c_str_def new_canon_def
  ascii_lib_def trim_copy_dropWhile isspace_def Let_def
  run_felix_def init_schema_def open_store_def load_format_defaults_def meta_get_def meta_set_def
  ensure_null_value_def parse_mode_def parse_typed_kv_def split_once_def parse_type_def
  logical_type_from_string_def canonicalize_typed_value_raw_def run_query_def
  parse_cli_type_value_def query_current_eq_def query_ever_eq_def empty_db_def legacy_db_def
  base64_decode_strict_def b64_index_def fresh_store_def



section \<open>What interning and schema creation leave alone\<close>

lemma meta_set_tables [simp]:
  "fields_tab (meta_set d k v) = fields_tab d"
  "f_values (meta_set d k v) = f_values d"
  "records (meta_set d k v) = records d"
  "facts (meta_set d k v) = facts d"
  "current_facts (meta_set d k v) = current_facts d"
  by (simp_all add: meta_set_def)

lemma load_format_defaults_db [simp]: "db (load_format_defaults s) = db s"
  by (simp add: load_format_defaults_def split: option.splits)

lemma insert_field_or_ignore_tables [simp]:
  "meta (insert_field_or_ignore d c h) = meta d"
  "f_values (insert_field_or_ignore d c h) = f_values d"
  "records (insert_field_or_ignore d c h) = records d"
  "facts (insert_field_or_ignore d c h) = facts d"
  "current_facts (insert_field_or_ignore d c h) = current_facts d"
  by (simp_all add: insert_field_or_ignore_def)

lemma insert_value_or_ignore_tables [simp]:
  "meta (insert_value_or_ignore d t cv) = meta d"
  "fields_tab (insert_value_or_ignore d t cv) = fields_tab d"
  "records (insert_value_or_ignore d t cv) = records d"
  "facts (insert_value_or_ignore d t cv) = facts d"
  "current_facts (insert_value_or_ignore d t cv) = current_facts d"
  by (simp_all add: insert_value_or_ignore_def)

lemma get_or_create_field_result:
  assumes "get_or_create_field L s n = Inr (fid, s')"
  shows "s' = s\<lparr>db := insert_field_or_ignore (db s) (nfc_normalize_utf8 L (trim_copy n))
                   (canonicalize_field_hash L (nfc_normalize_utf8 L (trim_copy n)))\<rparr>"
    and "field_id_of L (db s') n = Some fid"
    and "length n \<le> 256" and "utf8_roundtrip L n = n"
  using assms
  by (auto simp: get_or_create_field_def require_utf8_def field_id_of_def Let_def
           split: if_splits option.splits)

lemma get_or_create_field_tables:
  assumes "get_or_create_field L s n = Inr (fid, s')"
  shows "meta (db s') = meta (db s)" "f_values (db s') = f_values (db s)"
        "records (db s') = records (db s)" "facts (db s') = facts (db s)"
        "current_facts (db s') = current_facts (db s)"
        "tagmap s' = tagmap s" "hashfmt s' = hashfmt s"
  using get_or_create_field_result(1) [OF assms] by simp_all

lemma get_or_create_value_result:
  assumes "get_or_create_value L s cv = Inr (vid, s')"
  shows "\<exists>tag h. type_tag_byte (tagmap s) (logical_type cv) = Inr tag \<and>
           s' = s\<lparr>db := insert_value_or_ignore (db s) tag (cv\<lparr>hash := h\<rparr>)\<rparr> \<and>
           find (\<lambda>r. v_hash r = h) (f_values (db s')) \<noteq> None \<and>
           vid = v_value_id (the (find (\<lambda>r. v_hash r = h) (f_values (db s'))))"
  using assms
  by (auto simp: get_or_create_value_def sha256_typed_def Let_def
           split: if_splits option.splits sum.splits)

lemma get_or_create_value_tables:
  assumes "get_or_create_value L s cv = Inr (vid, s')"
  shows "meta (db s') = meta (db s)" "fields_tab (db s') = fields_tab (db s)"
        "records (db s') = records (db s)" "facts (db s') = facts (db s)"
        "current_facts (db s') = current_facts (db s)"
        "tagmap s' = tagmap s" "hashfmt s' = hashfmt s"
  using get_or_create_value_result [OF assms] by auto

lemma get_or_create_value_vid:
  assumes "get_or_create_value L s cv = Inr (vid, s')"
  shows "vid \<in> v_value_id ` set (f_values (db s'))"
proof -
  from get_or_create_value_result [OF assms] obtain h r where
    "find (\<lambda>r. v_hash r = h) (f_values (db s')) = Some r" "vid = v_value_id r"
    by auto
  then show ?thesis
    by (auto simp: find_Some_iff)
qed

lemma get_or_create_field_fid:
  assumes "get_or_create_field L s n = Inr (fid, s')"
  shows "fid \<in> f_field_id ` set (fields_tab (db s'))"
  using get_or_create_field_result(2) [OF assms]
  by (auto simp: field_id_of_def Let_def find_Some_iff)

lemma init_schema_tables:
  "records (db (snd (init_schema L s))) = records (db s)"
  "facts (db (snd (init_schema L s))) = facts (db s)"
  "current_facts (db (snd (init_schema L s))) = current_facts (db s)"
  "fields_tab (db (snd (init_schema L s))) = fields_tab (db s)"
  by (auto simp: init_schema_def ensure_null_value_def Let_def
           split: sum.splits dest: get_or_create_value_tables)

lemma get_or_create_field_frame:
  assumes "get_or_create_field L s n = Inr (fid, s')"
  shows "records (db s') = records (db s) \<and> facts (db s') = facts (db s) \<and>
         current_facts (db s') = current_facts (db s)"
  using get_or_create_field_tables [OF assms] by simp

lemma get_or_create_value_frame:
  assumes "get_or_create_value L s cv = Inr (vid, s')"
  shows "records (db s') = records (db s) \<and> facts (db s') = facts (db s) \<and>
         current_facts (db s') = current_facts (db s)"
  using get_or_create_value_tables [OF assms] by simp

lemma run_query_tables:
  "records (db (snd (run_query L c f tv s))) = records (db s)"
  "facts (db (snd (run_query L c f tv s))) = facts (db s)"
  "current_facts (db (snd (run_query L c f tv s))) = current_facts (db s)"
  by (auto simp: run_query_def split: sum.splits
           dest!: get_or_create_value_frame get_or_create_field_frame)

lemma open_store_db [simp]: "db (open_store d) = d"
  by (simp add: open_store_def)

lemma run_felix_query_db:
  "snd (run_felix L d (CurrentEq f tv)) =
     (case init_schema L (open_store d) of
        (Inl e, store) \<Rightarrow> db store
      | (Inr u, store) \<Rightarrow> db (snd (run_query L True f tv store)))"
  "snd (run_felix L d (EverEq f tv)) =
     (case init_schema L (open_store d) of
        (Inl e, store) \<Rightarrow> db store
      | (Inr u, store) \<Rightarrow> db (snd (run_query L False f tv store)))"
  by (auto simp: run_felix_def split: prod.splits sum.splits)

lemma run_felix_query_tables:
  assumes "cmd = CurrentEq f tv \<or> cmd = EverEq f tv"
  shows "records (snd (run_felix L d cmd)) = records d"
    and "facts (snd (run_felix L d cmd)) = facts d"
    and "current_facts (snd (run_felix L d cmd)) = current_facts d"
proof -
  obtain r store where i: "init_schema L (open_store d) = (r, store)"
    by (cases "init_schema L (open_store d)")
  then have st: "store = snd (init_schema L (open_store d))" by simp
  have t: "records (db store) = records d" "facts (db store) = facts d"
    "current_facts (db store) = current_facts d"
    unfolding st by (simp_all add: init_schema_tables)
  from assms i t show "records (snd (run_felix L d cmd)) = records d"
    by (cases r) (auto simp: run_felix_query_db run_query_tables)
  from assms i t show "facts (snd (run_felix L d cmd)) = facts d"
    by (cases r) (auto simp: run_felix_query_db run_query_tables)
  from assms i t show "current_facts (snd (run_felix L d cmd)) = current_facts d"
    by (cases r) (auto simp: run_felix_query_db run_query_tables)
qed

section \<open>The limit on field names\<close>

text \<open>
  C9 (amended). Field interning fails with \<open>FieldTooLong\<close> exactly when the field name as
  passed, before trimming and normalization, is longer than 256 bytes; the length of the
  canonical form is not looked at.
\<close>

theorem field_too_long_iff_raw_length:
  "(get_or_create_field L s name = Inl FieldTooLong) = (length name > 256)"
  by (auto simp: get_or_create_field_def require_utf8_def Let_def split: option.splits)

theorem field_too_long_iff_raw_length_witness:
  "get_or_create_field ascii_lib (fresh_store ascii_lib) (replicate 257 (CHR ''a'')) = Inl FieldTooLong \<and>
   get_or_create_field ascii_lib (fresh_store ascii_lib) (replicate 256 (CHR ''a'')) \<noteq> Inl FieldTooLong"
  using field_too_long_iff_raw_length [of ascii_lib "fresh_store ascii_lib" "replicate 257 (CHR ''a'')"]
        field_too_long_iff_raw_length [of ascii_lib "fresh_store ascii_lib" "replicate 256 (CHR ''a'')"]
  by simp

lemma trim_copy_trailing_spaces:
  "\<not> isspace c \<Longrightarrow> trim_copy (c # replicate n (CHR 0x20)) = [c]"
  by (simp add: trim_copy_dropWhile isspace_def dropWhile_append3)

text \<open>
  C9 as stated fails: the name \<open>a\<close> followed by 256 spaces has the canonical form \<open>a\<close>, of
  one byte, and is rejected.
\<close>

theorem field_too_long_canonical_counterexample:
  "nfc_normalize_utf8 ascii_lib (trim_copy (CHR ''a'' # replicate 256 (CHR 0x20))) = ''a'' \<and>
   get_or_create_field ascii_lib (fresh_store ascii_lib) (CHR ''a'' # replicate 256 (CHR 0x20)) =
     Inl FieldTooLong"
  by (simp add: trim_copy_trailing_spaces isspace_def ascii_lib_def get_or_create_field_def)

section \<open>The format of a legacy database\<close>

lemma meta_get_meta_set:
  "meta_get (meta_set d k v) k' = (if k' = k then Some v else meta_get d k')"
proof -
  have a: "map_of (map (\<lambda>(k', v'). if k' = k then (k', v) else (k', v')) m) k' =
        (if k' = k then (if k \<in> fst ` set m then Some v else None) else map_of m k')"
    for m :: "(string \<times> string) list"
    by (induction m) (auto simp: rev_image_eqI)
  have b: "k \<notin> fst ` set m \<Longrightarrow> map_of (m @ [(k, v)]) k' = (if k' = k then Some v else map_of m k')"
    for m :: "(string \<times> string) list"
    by (auto simp: map_of_eq_None_iff [symmetric] map_add_def split: option.splits)
  show ?thesis
    using a [of "meta d"] b [of "meta d"]
    by (cases "k \<in> fst ` set (meta d)") (simp_all add: meta_get_def meta_set_def)
qed

lemma init_schema_meta:
  "meta (db (snd (init_schema L s))) =
     meta (meta_set (meta_set (meta_set (db s) ''felix_spec'' ''0.3'') ''tag_map'' ''felix_v03'')
             ''hash_format'' ''felix_v03_sep'')"
  by (auto simp: init_schema_def ensure_null_value_def Let_def
           split: sum.splits dest: get_or_create_value_tables)

lemma init_schema_format:
  "meta_get (db (snd (init_schema L s))) ''hash_format'' = Some ''felix_v03_sep''"
  "meta_get (db (snd (init_schema L s))) ''tag_map'' = Some ''felix_v03''"
proof -
  let ?d = "meta_set (meta_set (meta_set (db s) ''felix_spec'' ''0.3'') ''tag_map'' ''felix_v03'')
             ''hash_format'' ''felix_v03_sep''"
  have m: "meta_get (db (snd (init_schema L s))) k = meta_get ?d k" for k
    by (simp add: meta_get_def init_schema_meta)
  show "meta_get (db (snd (init_schema L s))) ''hash_format'' = Some ''felix_v03_sep''"
    unfolding m by (simp add: meta_get_meta_set)
  show "meta_get (db (snd (init_schema L s))) ''tag_map'' = Some ''felix_v03''"
    unfolding m by (simp add: meta_get_meta_set)
qed

text \<open>
  The store itself honours a legacy format: opened on a legacy database, without
  \<^const>\<open>init_schema\<close>, it refuses a Bytes value and hashes a Text value under tag 1 with no
  separator.
\<close>

lemma open_legacy_store:
  "tagmap (open_store legacy_db) = LegacyV02" "hashfmt (open_store legacy_db) = LegacyNoSep"
  by (simp_all add: open_store_def load_format_defaults_def meta_get_def legacy_db_def empty_db_def)

lemma legacy_store_refuses_bytes:
  "logical_type cv = BytesT \<Longrightarrow> length (canon_blob cv) \<le> 4 * 1024 * 1024 \<Longrightarrow>
   get_or_create_value L (open_store legacy_db) cv = Inl UnsupportedInLegacy"
  by (simp add: get_or_create_value_def sha256_typed_def open_legacy_store)

lemma legacy_store_text_hash:
  "sha256_typed L (tagmap (open_store legacy_db)) (hashfmt (open_store legacy_db)) TextT ''a'' =
     Inr (sha256_bytes L [CHR 0x01, CHR ''a''])"
  by (simp add: sha256_typed_def open_legacy_store)

text \<open>
  C2 (the code departs from the claim). \<^const>\<open>run_felix\<close> calls \<^const>\<open>init_schema\<close> before
  every command, and \<^const>\<open>init_schema\<close> stamps the current format. On the legacy
  database the ingest of \<open>X=bytes:AA==\<close> therefore succeeds, with tag 5 and the separator
  in the hash input, and the hash format of the database has changed.
\<close>

theorem legacy_db_bytes_ingest_evaluated:
  "meta_get legacy_db ''hash_format'' = Some ''legacy_no_sep'' \<and>
   fst (run_felix ascii_lib legacy_db (Ingest 1 1000 ''event'' [''X=bytes:AA==''])) = Inr [] \<and>
   meta_get (snd (run_felix ascii_lib legacy_db (Ingest 1 1000 ''event'' [''X=bytes:AA==''])))
     ''hash_format'' = Some ''felix_v03_sep'' \<and>
   map v_hash (f_values (snd (run_felix ascii_lib legacy_db (Ingest 1 1000 ''event'' [''X=text:a''])))) =
     [sha256_bytes ascii_lib [CHR 0x00, CHR 0x00, CHR ''n'', CHR ''u'', CHR ''l'', CHR ''l''],
      sha256_bytes ascii_lib [CHR 0x04, CHR 0x00, CHR ''a'']]"
  by (simp add: felix_eval)

section \<open>The consistency of log and view\<close>

lemma same_pair_key: "same_pair r f g \<longleftrightarrow> pair_key g = (r, f)"
  by (auto simp: same_pair_def pair_key_def)

lemma same_pair_key': "same_pair (record_id f) (field_id f) g \<longleftrightarrow> pair_key g = pair_key f"
  by (auto simp: same_pair_def pair_key_def)

lemma fact_key_pair: "fact_key g = fact_key h \<longleftrightarrow> pair_key g = pair_key h \<and> ts_ms g = ts_ms h"
  by (auto simp: fact_key_def pair_key_def)

lemma view_ok_iff:
  "view_ok fs cs \<longleftrightarrow>
     distinct (map fact_key fs) \<and> distinct (map pair_key cs) \<and> set cs \<subseteq> set fs \<and>
     (\<forall>g\<in>set fs. \<exists>c\<in>set cs. pair_key c = pair_key g \<and> ts_ms g \<le> ts_ms c)"
  by (auto simp: view_ok_def covered_def list_all_iff list_ex_iff)

lemma distinct_map_eq:
  "distinct (map k xs) \<Longrightarrow> x \<in> set xs \<Longrightarrow> y \<in> set xs \<Longrightarrow> k x = k y \<Longrightarrow> x = y"
  by (auto simp: distinct_map inj_on_def)

lemma distinct_map_filter_single:
  "distinct (map k xs) \<Longrightarrow> x \<in> set xs \<Longrightarrow> filter (\<lambda>y. k y = k x) xs = [x]"
proof (induction xs)
  case Nil
  then show ?case by simp
next
  case (Cons a xs)
  show ?case
  proof (cases "a = x")
    case True
    with Cons.prems have "k x \<notin> k ` set xs" by simp
    then have "\<forall>y\<in>set xs. k y \<noteq> k x" by (metis imageI)
    then have "filter (\<lambda>y. k y = k x) xs = []" by (simp add: filter_empty_conv)
    with True show ?thesis by simp
  next
    case False
    with Cons.prems have x: "x \<in> set xs" and "k a \<noteq> k x" by auto
    with Cons show ?thesis by simp
  qed
qed

lemma view_ok_empty: "view_ok [] []"
  by (simp add: view_ok_def)

text \<open>The three outcomes of the upsert after a fact with a new key was appended.\<close>

lemma view_ok_append_new:
  assumes v: "view_ok fs cs" and k: "fact_key f \<notin> fact_key ` set fs"
    and n: "\<forall>c\<in>set cs. pair_key c \<noteq> pair_key f"
  shows "view_ok (fs @ [f]) (cs @ [f])"
proof -
  from v have df: "distinct (map fact_key fs)" and dc: "distinct (map pair_key cs)"
    and sub: "set cs \<subseteq> set fs"
    and cov: "\<forall>g\<in>set fs. \<exists>c\<in>set cs. pair_key c = pair_key g \<and> ts_ms g \<le> ts_ms c"
    by (simp_all add: view_ok_iff)
  have 1: "distinct (map fact_key (fs @ [f]))" using df k by simp
  have "pair_key f \<notin> pair_key ` set cs" using n by (metis imageE)
  then have 2: "distinct (map pair_key (cs @ [f]))" using dc by simp
  have 3: "set (cs @ [f]) \<subseteq> set (fs @ [f])" using sub by auto
  have 4: "\<exists>c\<in>set (cs @ [f]). pair_key c = pair_key g \<and> ts_ms g \<le> ts_ms c"
    if "g \<in> set (fs @ [f])" for g
  proof (cases "g = f")
    case True
    then show ?thesis by simp
  next
    case False
    with that have "g \<in> set fs" by simp
    with cov obtain c where "c \<in> set cs" "pair_key c = pair_key g" "ts_ms g \<le> ts_ms c"
      by blast
    then show ?thesis by auto
  qed
  from 1 2 3 4 show ?thesis
    unfolding view_ok_iff by blast
qed

lemma view_ok_append_older:
  assumes v: "view_ok fs cs" and k: "fact_key f \<notin> fact_key ` set fs"
    and c: "c \<in> set cs" "pair_key c = pair_key f" "ts_ms f \<le> ts_ms c"
  shows "view_ok (fs @ [f]) cs"
proof -
  from v have df: "distinct (map fact_key fs)" and dc: "distinct (map pair_key cs)"
    and sub: "set cs \<subseteq> set fs"
    and cov: "\<forall>g\<in>set fs. \<exists>c\<in>set cs. pair_key c = pair_key g \<and> ts_ms g \<le> ts_ms c"
    by (simp_all add: view_ok_iff)
  have 1: "distinct (map fact_key (fs @ [f]))" using df k by simp
  have 3: "set cs \<subseteq> set (fs @ [f])" using sub by auto
  have 4: "\<exists>c\<in>set cs. pair_key c = pair_key g \<and> ts_ms g \<le> ts_ms c"
    if "g \<in> set (fs @ [f])" for g
  proof (cases "g = f")
    case True
    with c show ?thesis by blast
  next
    case False
    with that have "g \<in> set fs" by simp
    with cov show ?thesis by blast
  qed
  from 1 dc 3 4 show ?thesis
    unfolding view_ok_iff by blast
qed

lemma replace_row_eq:
  "pair_key c = pair_key f \<Longrightarrow> c\<lparr>value_id := value_id f, ts_ms := ts_ms f\<rparr> = (f :: FactRow)"
  by (cases c, cases f) (simp add: pair_key_def)

lemma view_ok_append_newer:
  assumes v: "view_ok fs cs" and k: "fact_key f \<notin> fact_key ` set fs"
    and c: "c \<in> set cs" "pair_key c = pair_key f" "ts_ms c \<le> ts_ms f"
  shows "view_ok (fs @ [f])
           (map (\<lambda>c. if pair_key c = pair_key f then c\<lparr>value_id := value_id f, ts_ms := ts_ms f\<rparr> else c) cs)"
proof -
  let ?upd = "\<lambda>c. if pair_key c = pair_key f then c\<lparr>value_id := value_id f, ts_ms := ts_ms f\<rparr> else c"
  have upd: "?upd x = (if pair_key x = pair_key f then f else x)" for x
    by (simp add: replace_row_eq)
  have pk: "pair_key (?upd x) = pair_key x" for x
    by (simp add: upd)
  from v have df: "distinct (map fact_key fs)" and dc: "distinct (map pair_key cs)"
    and sub: "set cs \<subseteq> set fs"
    and cov: "\<forall>g\<in>set fs. \<exists>c\<in>set cs. pair_key c = pair_key g \<and> ts_ms g \<le> ts_ms c"
    by (simp_all add: view_ok_iff)
  have 1: "distinct (map fact_key (fs @ [f]))" using df k by simp
  have "map pair_key (map ?upd cs) = map (\<lambda>x. pair_key (?upd x)) cs"
    by (simp only: map_map comp_def)
  also have "\<dots> = map pair_key cs"
    by (simp only: pk)
  finally have 2: "distinct (map pair_key (map ?upd cs))" using dc by (simp only:)
  have 3: "set (map ?upd cs) \<subseteq> set (fs @ [f])"
    using sub by (auto simp: upd)
  have 4: "\<exists>c'\<in>set (map ?upd cs). pair_key c' = pair_key g \<and> ts_ms g \<le> ts_ms c'"
    if g: "g \<in> set (fs @ [f])" for g
  proof (cases "pair_key g = pair_key f")
    case True
    have "ts_ms g \<le> ts_ms f"
    proof (cases "g = f")
      case True
      then show ?thesis by simp
    next
      case False
      with g have "g \<in> set fs" by simp
      with cov obtain c1 where c1: "c1 \<in> set cs" "pair_key c1 = pair_key g" "ts_ms g \<le> ts_ms c1"
        by blast
      with True c have "c1 = c"
        using distinct_map_eq [OF dc, of c1 c] by simp
      with c1 c show ?thesis by simp
    qed
    moreover have "?upd c \<in> set (map ?upd cs)" using c(1) unfolding set_map by (rule imageI)
    moreover have "?upd c = f" using c(2) by (simp add: replace_row_eq)
    ultimately show ?thesis using True by auto
  next
    case False
    with g have "g \<in> set fs" by auto
    with cov obtain c1 where c1: "c1 \<in> set cs" "pair_key c1 = pair_key g" "ts_ms g \<le> ts_ms c1"
      by blast
    with False have "?upd c1 = c1" by (simp add: upd)
    moreover have "?upd c1 \<in> set (map ?upd cs)" using c1(1) unfolding set_map by (rule imageI)
    ultimately show ?thesis using c1 by auto
  qed
  from 1 2 3 4 show ?thesis
    unfolding view_ok_iff by blast
qed

text \<open>What the view says once it is consistent with the log.\<close>

lemma view_ok_covers_max:
  assumes v: "view_ok fs cs" and c: "c \<in> set cs"
  shows "group_max_ts fs (record_id c) (field_id c) = ts_ms c"
proof -
  from v have dc: "distinct (map pair_key cs)" and sub: "set cs \<subseteq> set fs"
    and cov: "\<forall>g\<in>set fs. \<exists>c\<in>set cs. pair_key c = pair_key g \<and> ts_ms g \<le> ts_ms c"
    by (simp_all add: view_ok_iff)
  let ?gs = "filter (same_pair (record_id c) (field_id c)) fs"
  have in_gs: "c \<in> set ?gs" using c sub by (auto simp: same_pair_def)
  have le: "ts_ms g \<le> ts_ms c" if "g \<in> set ?gs" for g
  proof -
    from that have g: "g \<in> set fs" "pair_key g = pair_key c"
      by (auto simp: same_pair_key')
    with cov obtain c1 where c1: "c1 \<in> set cs" "pair_key c1 = pair_key g" "ts_ms g \<le> ts_ms c1"
      by blast
    with g c have "c1 = c" using distinct_map_eq [OF dc, of c1 c] by simp
    with c1 show ?thesis by simp
  qed
  show ?thesis
    unfolding group_max_ts_def
    by (rule Max_eqI) (use in_gs le in auto)
qed

lemma view_ok_current_is_max_for:
  assumes v: "view_ok (facts d) (current_facts d)" and g: "g \<in> set (facts d)"
  shows "current_is_max_for d g"
proof -
  let ?fs = "facts d" and ?cs = "current_facts d"
  from v have df: "distinct (map fact_key ?fs)" and dc: "distinct (map pair_key ?cs)"
    and sub: "set ?cs \<subseteq> set ?fs"
    and cov: "\<forall>g\<in>set ?fs. \<exists>c\<in>set ?cs. pair_key c = pair_key g \<and> ts_ms g \<le> ts_ms c"
    by (simp_all add: view_ok_iff)
  from cov g obtain c where c: "c \<in> set ?cs" "pair_key c = pair_key g" by blast
  let ?gs = "filter (same_pair (record_id g) (field_id g)) ?fs"
  have sp: "same_pair (record_id g) (field_id g) h \<longleftrightarrow> pair_key h = pair_key c" for h
    using c(2) by (simp add: same_pair_key')
  have "filter (same_pair (record_id g) (field_id g)) ?cs = filter (\<lambda>y. pair_key y = pair_key c) ?cs"
    by (rule filter_cong) (simp_all add: sp)
  also have "\<dots> = [c]"
    by (rule distinct_map_filter_single [OF dc c(1)])
  finally have cs: "filter (same_pair (record_id g) (field_id g)) ?cs = [c]" .
  have rf: "record_id g = record_id c" "field_id g = field_id c"
    using c(2) by (simp_all add: pair_key_def)
  have A: "ts_ms c = Max (ts_ms ` set ?gs)"
    using view_ok_covers_max [OF v c(1)] by (simp only: group_max_ts_def rf)
  have cfs: "c \<in> set ?fs" using c(1) sub by blast
  have cin: "c \<in> set ?gs"
    using cfs by (simp add: sp)
  have uniq: "value_id h = value_id c" if h: "h \<in> set ?gs" and t: "ts_ms h = ts_ms c" for h
  proof -
    from h have "h \<in> set ?fs" and "pair_key h = pair_key c"
      by (simp_all add: sp)
    with t have "fact_key h = fact_key c" by (simp add: fact_key_pair)
    with \<open>h \<in> set ?fs\<close> cfs have "h = c" by (rule distinct_map_eq [OF df])
    then show ?thesis by simp
  qed
  have B: "list_all (\<lambda>h. ts_ms h \<noteq> ts_ms c \<or> value_id h = value_id c) ?gs"
    unfolding list_all_iff using uniq by blast
  have C: "list_ex (\<lambda>h. ts_ms h = ts_ms c \<and> value_id h = value_id c) ?gs"
    unfolding list_ex_iff using cin by blast
  show ?thesis
    unfolding current_is_max_for_def Let_def cs
    using A B C by simp
qed

lemma wf_db_current_is_max: "wf_db d \<Longrightarrow> current_is_max d"
  by (simp add: wf_db_def current_is_max_def list_all_iff view_ok_current_is_max_for)


section \<open>The ingest keeps log and view consistent\<close>

lemma fk_ok_mono:
  assumes "fk_ok d g"
    and "set (records d) \<subseteq> set (records d')"
    and "set (fields_tab d) \<subseteq> set (fields_tab d')"
    and "set (f_values d) \<subseteq> set (f_values d')"
  shows "fk_ok d' g"
  using assms unfolding fk_ok_def by (meson image_mono subsetD)

lemma wf_db_mono:
  assumes "wf_db d"
    and "facts d' = facts d" and "current_facts d' = current_facts d"
    and "set (records d) \<subseteq> set (records d')"
    and "set (fields_tab d) \<subseteq> set (fields_tab d')"
    and "set (f_values d) \<subseteq> set (f_values d')"
  shows "wf_db d'"
proof -
  from assms(1) have v: "view_ok (facts d) (current_facts d)"
    and fk: "\<forall>g\<in>set (facts d). fk_ok d g"
    by (simp_all add: wf_db_def list_all_iff)
  from fk have "\<forall>g\<in>set (facts d). fk_ok d' g"
    using fk_ok_mono [OF _ assms(4,5,6)] by blast
  with v assms(2,3) show ?thesis
    by (simp add: wf_db_def list_all_iff)
qed

lemma insert_field_or_ignore_subset:
  "set (fields_tab d) \<subseteq> set (fields_tab (insert_field_or_ignore d c h))"
  by (auto simp: insert_field_or_ignore_def)

lemma insert_value_or_ignore_subset:
  "set (f_values d) \<subseteq> set (f_values (insert_value_or_ignore d t cv))"
  by (auto simp: insert_value_or_ignore_def)

lemma get_or_create_field_grows:
  assumes "get_or_create_field L s n = Inr (fid, s')"
  shows "set (fields_tab (db s)) \<subseteq> set (fields_tab (db s'))"
proof -
  let ?c = "nfc_normalize_utf8 L (trim_copy n)"
  from get_or_create_field_result(1) [OF assms]
  have "s' = s\<lparr>db := insert_field_or_ignore (db s) ?c (canonicalize_field_hash L ?c)\<rparr>" .
  then show ?thesis
    using insert_field_or_ignore_subset [of "db s" ?c "canonicalize_field_hash L ?c"] by simp
qed

lemma get_or_create_value_grows:
  assumes "get_or_create_value L s cv = Inr (vid, s')"
  shows "set (f_values (db s)) \<subseteq> set (f_values (db s'))"
proof -
  from get_or_create_value_result [OF assms] obtain tag h where
    "s' = s\<lparr>db := insert_value_or_ignore (db s) tag (cv\<lparr>hash := h\<rparr>)\<rparr>"
    by blast
  then show ?thesis
    using insert_value_or_ignore_subset [of "db s" tag "cv\<lparr>hash := h\<rparr>"] by simp
qed

lemma get_or_create_field_wf:
  assumes "get_or_create_field L s n = Inr (fid, s')" and "wf_db (db s)"
  shows "wf_db (db s')"
  using assms(2) get_or_create_field_tables [OF assms(1)] get_or_create_field_grows [OF assms(1)]
  by (intro wf_db_mono [of "db s" "db s'"]) simp_all

lemma get_or_create_value_wf:
  assumes "get_or_create_value L s cv = Inr (vid, s')" and "wf_db (db s)"
  shows "wf_db (db s')"
  using assms(2) get_or_create_value_tables [OF assms(1)] get_or_create_value_grows [OF assms(1)]
  by (intro wf_db_mono [of "db s" "db s'"]) simp_all

lemma ensure_record_tables [simp]:
  "facts (db (ensure_record s r t)) = facts (db s)"
  "current_facts (db (ensure_record s r t)) = current_facts (db s)"
  "fields_tab (db (ensure_record s r t)) = fields_tab (db s)"
  "f_values (db (ensure_record s r t)) = f_values (db s)"
  "meta (db (ensure_record s r t)) = meta (db s)"
  "tagmap (ensure_record s r t) = tagmap s"
  "hashfmt (ensure_record s r t) = hashfmt s"
  by (simp_all add: ensure_record_def)

lemma ensure_record_has: "r \<in> fst ` set (records (db (ensure_record s r t)))"
  by (simp add: ensure_record_def)

lemma ensure_record_wf: "wf_db (db s) \<Longrightarrow> wf_db (db (ensure_record s r t))"
  by (rule wf_db_mono [of "db s"]) (auto simp: ensure_record_def)

lemma insert_fact_Inr:
  assumes "insert_fact s f = Inr s'"
  shows "fact_key f \<notin> fact_key ` set (facts (db s))"
    and "fk_ok (db s) f"
    and "s' = s\<lparr>db := (db s)\<lparr>facts := facts (db s) @ [f]\<rparr>\<rparr>"
proof -
  from assms have n: "\<not> (\<exists>g \<in> set (facts (db s)). same_pair (record_id f) (field_id f) g \<and> ts_ms g = ts_ms f)"
    and "fk_ok (db s) f" and "s' = s\<lparr>db := (db s)\<lparr>facts := facts (db s) @ [f]\<rparr>\<rparr>"
    by (auto simp: insert_fact_def split: if_splits)
  then show "fk_ok (db s) f" and "s' = s\<lparr>db := (db s)\<lparr>facts := facts (db s) @ [f]\<rparr>\<rparr>"
    by simp_all
  from n show "fact_key f \<notin> fact_key ` set (facts (db s))"
    by (auto simp: same_pair_key' fact_key_pair)
qed

lemma upsert_map_eq:
  "map (\<lambda>c. if same_pair (record_id f) (field_id f) c
            then c\<lparr>value_id := value_id f, ts_ms := ts_ms f\<rparr> else c) cs =
   map (\<lambda>c. if pair_key c = pair_key f then c\<lparr>value_id := value_id f, ts_ms := ts_ms f\<rparr> else c) cs"
  by (simp add: same_pair_key')

lemma upsert_Inr:
  assumes "upsert_current_if_newer s f = Inr s'"
  shows "\<exists>cur. s' = s\<lparr>db := (db s)\<lparr>current_facts := cur\<rparr>\<rparr> \<and>
           ((find (same_pair (record_id f) (field_id f)) (current_facts (db s)) = None \<and>
             cur = current_facts (db s) @ [f]) \<or>
            (\<exists>c. find (same_pair (record_id f) (field_id f)) (current_facts (db s)) = Some c \<and>
                 ts_ms c \<le> ts_ms f \<and>
                 cur = map (\<lambda>c. if pair_key c = pair_key f
                                then c\<lparr>value_id := value_id f, ts_ms := ts_ms f\<rparr> else c)
                           (current_facts (db s))) \<or>
            (\<exists>c. find (same_pair (record_id f) (field_id f)) (current_facts (db s)) = Some c \<and>
                 ts_ms f < ts_ms c \<and> cur = current_facts (db s)))"
proof (cases "find (same_pair (record_id f) (field_id f)) (current_facts (db s))")
  case None
  with assms show ?thesis
    by (auto simp: upsert_current_if_newer_def split: if_splits)
next
  case (Some c)
  show ?thesis
  proof (cases "ts_ms c \<le> ts_ms f")
    case True
    with assms Some have "s' = s\<lparr>db := (db s)\<lparr>current_facts :=
          map (\<lambda>c. if pair_key c = pair_key f
                   then c\<lparr>value_id := value_id f, ts_ms := ts_ms f\<rparr> else c)
              (current_facts (db s))\<rparr>\<rparr>"
      by (auto simp: upsert_current_if_newer_def upsert_map_eq split: if_splits)
    with Some True show ?thesis by blast
  next
    case False
    with assms Some have "s' = s"
      by (simp add: upsert_current_if_newer_def)
    then have "s' = s\<lparr>db := (db s)\<lparr>current_facts := current_facts (db s)\<rparr>\<rparr>" by simp
    with Some False show ?thesis by (metis not_le)
  qed
qed

lemma find_same_pair_None:
  "find (same_pair (record_id f) (field_id f)) cs = None \<longleftrightarrow> (\<forall>c\<in>set cs. pair_key c \<noteq> pair_key f)"
  by (auto simp: find_None_iff same_pair_key')

lemma find_same_pair_Some:
  "find (same_pair (record_id f) (field_id f)) cs = Some c \<Longrightarrow> c \<in> set cs \<and> pair_key c = pair_key f"
  by (auto simp: find_Some_iff same_pair_key')

lemma insert_upsert_view_ok:
  assumes v: "view_ok (facts (db s)) (current_facts (db s))"
    and i: "insert_fact s f = Inr s1" and u: "upsert_current_if_newer s1 f = Inr s2"
  shows "view_ok (facts (db s2)) (current_facts (db s2))"
    and "facts (db s2) = facts (db s) @ [f]"
    and "records (db s2) = records (db s)" "fields_tab (db s2) = fields_tab (db s)"
        "f_values (db s2) = f_values (db s)" "meta (db s2) = meta (db s)"
        "tagmap s2 = tagmap s" "hashfmt s2 = hashfmt s"
proof -
  note k = insert_fact_Inr(1) [OF i]
  note s1 = insert_fact_Inr(3) [OF i]
  from upsert_Inr [OF u] obtain cur where
    s2: "s2 = s1\<lparr>db := (db s1)\<lparr>current_facts := cur\<rparr>\<rparr>" and
    cases: "(find (same_pair (record_id f) (field_id f)) (current_facts (db s1)) = None \<and>
             cur = current_facts (db s1) @ [f]) \<or>
            (\<exists>c. find (same_pair (record_id f) (field_id f)) (current_facts (db s1)) = Some c \<and>
                 ts_ms c \<le> ts_ms f \<and>
                 cur = map (\<lambda>c. if pair_key c = pair_key f
                                then c\<lparr>value_id := value_id f, ts_ms := ts_ms f\<rparr> else c)
                           (current_facts (db s1))) \<or>
            (\<exists>c. find (same_pair (record_id f) (field_id f)) (current_facts (db s1)) = Some c \<and>
                 ts_ms f < ts_ms c \<and> cur = current_facts (db s1))"
    by blast
  have c1: "current_facts (db s1) = current_facts (db s)" by (simp add: s1)
  show f2: "facts (db s2) = facts (db s) @ [f]" by (simp add: s2 s1)
  show "records (db s2) = records (db s)" "fields_tab (db s2) = fields_tab (db s)"
    "f_values (db s2) = f_values (db s)" "meta (db s2) = meta (db s)"
    "tagmap s2 = tagmap s" "hashfmt s2 = hashfmt s"
    by (simp_all add: s2 s1)
  have "view_ok (facts (db s) @ [f]) cur"
    using cases unfolding c1
  proof (elim disjE conjE exE)
    assume "find (same_pair (record_id f) (field_id f)) (current_facts (db s)) = None"
      and "cur = current_facts (db s) @ [f]"
    then show ?thesis
      using view_ok_append_new [OF v k] by (simp add: find_same_pair_None)
  next
    fix c
    assume "find (same_pair (record_id f) (field_id f)) (current_facts (db s)) = Some c"
      and "ts_ms c \<le> ts_ms f"
      and "cur = map (\<lambda>c. if pair_key c = pair_key f
                                then c\<lparr>value_id := value_id f, ts_ms := ts_ms f\<rparr> else c)
                           (current_facts (db s))"
    then show ?thesis
      using view_ok_append_newer [OF v k, of c] find_same_pair_Some [of f "current_facts (db s)" c]
      by simp
  next
    fix c
    assume "find (same_pair (record_id f) (field_id f)) (current_facts (db s)) = Some c"
      and "ts_ms f < ts_ms c" and "cur = current_facts (db s)"
    then show ?thesis
      using view_ok_append_older [OF v k, of c] find_same_pair_Some [of f "current_facts (db s)" c]
      by simp
  qed
  then show "view_ok (facts (db s2)) (current_facts (db s2))"
    by (simp add: f2) (simp add: s2)
qed

lemma insert_upsert_wf:
  assumes w: "wf_db (db s)"
    and i: "insert_fact s f = Inr s1" and u: "upsert_current_if_newer s1 f = Inr s2"
  shows "wf_db (db s2)"
proof -
  from w have v: "view_ok (facts (db s)) (current_facts (db s))"
    and fk: "\<forall>g\<in>set (facts (db s)). fk_ok (db s) g"
    by (simp_all add: wf_db_def list_all_iff)
  note r = insert_upsert_view_ok [OF v i u]
  have same: "fk_ok (db s2) g = fk_ok (db s) g" for g
    by (simp add: fk_ok_def r)
  from fk insert_fact_Inr(2) [OF i] have "\<forall>g\<in>set (facts (db s2)). fk_ok (db s2) g"
    by (simp add: same r(2))
  with r(1) show ?thesis
    by (simp add: wf_db_def list_all_iff)
qed

lemma ingest_item_cases:
  assumes "ingest_item L rid ts mode it s = Inr s'"
  obtains (skip) fid s1 vid where
      "get_or_create_field L s (field_name it) = Inr (fid, s1)"
      "get_or_create_value L s1 (item_value it) = Inr (vid, s')"
      "mode = EventDriven" "\<exists>t. get_current s' rid fid = Some (vid, t)"
  | (append) fid s1 vid s2 s3 where
      "get_or_create_field L s (field_name it) = Inr (fid, s1)"
      "get_or_create_value L s1 (item_value it) = Inr (vid, s2)"
      "mode = ObservationDriven \<or> (\<forall>t. get_current s2 rid fid \<noteq> Some (vid, t))"
      "insert_fact s2 \<lparr>record_id = rid, field_id = fid, value_id = vid, ts_ms = ts\<rparr> = Inr s3"
      "upsert_current_if_newer s3 \<lparr>record_id = rid, field_id = fid, value_id = vid, ts_ms = ts\<rparr> = Inr s'"
proof -
  from assms obtain fid s1 where f: "get_or_create_field L s (field_name it) = Inr (fid, s1)"
    by (auto simp: ingest_item_def split: sum.splits)
  with assms obtain vid s2 where v: "get_or_create_value L s1 (item_value it) = Inr (vid, s2)"
    by (auto simp: ingest_item_def split: sum.splits)
  let ?skip = "mode = EventDriven \<and>
      (case get_current s2 rid fid of Some (v, t) \<Rightarrow> v = vid | None \<Rightarrow> False)"
  show thesis
  proof (cases ?skip)
    case True
    with assms f v have "s' = s2" by (simp add: ingest_item_def)
    moreover from True have "\<exists>t. get_current s2 rid fid = Some (vid, t)"
      by (auto split: option.splits)
    ultimately show thesis using skip f v True by blast
  next
    case False
    let ?f = "\<lparr>record_id = rid, field_id = fid, value_id = vid, ts_ms = ts\<rparr>"
    from False assms f v obtain s3 where
      "insert_fact s2 ?f = Inr s3" "upsert_current_if_newer s3 ?f = Inr s'"
      by (auto simp: ingest_item_def Let_def split: sum.splits if_splits)
    moreover from False have "mode = ObservationDriven \<or> (\<forall>t. get_current s2 rid fid \<noteq> Some (vid, t))"
      by (cases mode) (auto split: option.splits)
    ultimately show thesis using append f v by blast
  qed
qed

lemma ingest_item_wf:
  assumes "ingest_item L rid ts mode it s = Inr s'" and w: "wf_db (db s)"
  shows "wf_db (db s')"
  using assms(1)
proof (cases rule: ingest_item_cases)
  case (skip fid s1 vid)
  from get_or_create_value_wf [OF skip(2) get_or_create_field_wf [OF skip(1) w]]
  show ?thesis .
next
  case (append fid s1 vid s2 s3)
  from get_or_create_value_wf [OF append(2) get_or_create_field_wf [OF append(1) w]]
  have "wf_db (db s2)" .
  from insert_upsert_wf [OF this append(4,5)] show ?thesis .
qed

lemma ingest_loop_wf:
  "ingest_loop L rid ts mode items s = Inr s' \<Longrightarrow> wf_db (db s) \<Longrightarrow> wf_db (db s')"
proof (induction items arbitrary: s)
  case Nil
  then show ?case by simp
next
  case (Cons it items)
  from Cons.prems(1) obtain s1 where
    a: "ingest_item L rid ts mode it s = Inr s1" and b: "ingest_loop L rid ts mode items s1 = Inr s'"
    by (auto split: sum.splits)
  from Cons.IH [OF b ingest_item_wf [OF a Cons.prems(2)]] show ?case .
qed

lemma ingest_items_cases:
  obtains (failed) e where "ingest_items L s rid ts mode items = (Inl e, s)"
  | (ok) s' where "ingest_items L s rid ts mode items = (Inr (), s')"
      "length items \<le> 256" "ingest_loop L rid ts mode items (ensure_record s rid ts) = Inr s'"
proof (cases "length items > 256")
  case True
  then have "ingest_items L s rid ts mode items = (Inl FieldsPerCallExceeded, s)"
    by (simp add: ingest_items_def with_tx_def)
  then show thesis by (rule failed)
next
  case False
  show thesis
  proof (cases "ingest_loop L rid ts mode items (ensure_record s rid ts)")
    case (Inl e)
    with False have "ingest_items L s rid ts mode items = (Inl e, s)"
      by (simp add: ingest_items_def with_tx_def)
    then show thesis by (rule failed)
  next
    case (Inr s')
    with False have "ingest_items L s rid ts mode items = (Inr (), s')"
      by (simp add: ingest_items_def with_tx_def)
    with False Inr show thesis by (intro ok [of s']) simp_all
  qed
qed

lemma ingest_items_wf:
  assumes "wf_db (db s)"
  shows "wf_db (db (snd (ingest_items L s rid ts mode items)))"
proof (cases rule: ingest_items_cases [of L s rid ts mode items])
  case (failed e)
  with assms show ?thesis by simp
next
  case (ok s')
  from ingest_loop_wf [OF ok(3) ensure_record_wf [OF assms]] ok(1) show ?thesis by simp
qed

lemma run_ingests_wf: "wf_db (db s) \<Longrightarrow> wf_db (db (run_ingests L s calls))"
  by (induction calls arbitrary: s) (simp_all add: ingest_items_wf)

lemma empty_tables_wf: "facts d = [] \<Longrightarrow> current_facts d = [] \<Longrightarrow> wf_db d"
  by (simp add: wf_db_def view_ok_def)

section \<open>The equality queries\<close>

lemma find_after_insert_value:
  "find (\<lambda>r. v_hash r = hash cv) (f_values (insert_value_or_ignore d tag cv)) \<noteq> None"
proof (cases "hash cv \<in> v_hash ` set (f_values d)")
  case True
  then obtain x where "x \<in> set (f_values d)" "v_hash x = hash cv" by auto
  then have "find (\<lambda>r. v_hash r = hash cv) (f_values d) \<noteq> None"
    by (auto simp: find_None_iff)
  with True show ?thesis by (simp add: insert_value_or_ignore_def)
next
  case False
  then show ?thesis by (auto simp: insert_value_or_ignore_def find_None_iff)
qed

lemma find_after_insert_field:
  "find (\<lambda>r. f_hash r = h) (fields_tab (insert_field_or_ignore d c h)) \<noteq> None"
proof (cases "h \<in> f_hash ` set (fields_tab d)")
  case True
  then obtain x where "x \<in> set (fields_tab d)" "f_hash x = h" by auto
  then have "find (\<lambda>r. f_hash r = h) (fields_tab d) \<noteq> None"
    by (auto simp: find_None_iff)
  with True show ?thesis by (simp add: insert_field_or_ignore_def)
next
  case False
  then show ?thesis by (auto simp: insert_field_or_ignore_def find_None_iff)
qed

lemma insert_field_or_ignore_cong:
  "fields_tab d' = fields_tab d \<Longrightarrow>
   fields_tab (insert_field_or_ignore d' c h) = fields_tab (insert_field_or_ignore d c h)"
  by (simp add: insert_field_or_ignore_def)

lemma insert_value_or_ignore_cong:
  "f_values d' = f_values d \<Longrightarrow>
   f_values (insert_value_or_ignore d' t cv) = f_values (insert_value_or_ignore d t cv)"
  by (simp add: insert_value_or_ignore_def)

lemma insert_value_or_ignore_append:
  "\<exists>zs. f_values (insert_value_or_ignore d t cv) = f_values d @ zs \<and> length zs \<le> 1"
  by (simp add: insert_value_or_ignore_def)

text \<open>\<^verbatim>\<open>init_schema\<close> always succeeds and leaves the store in the v0.3 format.\<close>

lemma init_schema_result:
  "fst (init_schema L s) = Inr ()"
  "tagmap (snd (init_schema L s)) = FelixV03"
  "hashfmt (snd (init_schema L s)) = FelixV03Sep"
  "f_values (db (snd (init_schema L s))) =
     f_values (insert_value_or_ignore (db s) (CHR 0x00)
       ((new_canon NullT)\<lparr>canon_text := ''null'',
          hash := sha256_bytes L (CHR 0x00 # CHR 0x00 # ''null'')\<rparr>))"
proof -
  let ?d = "meta_set (meta_set (meta_set (db s) ''felix_spec'' ''0.3'') ''tag_map'' ''felix_v03'')
             ''hash_format'' ''felix_v03_sep''"
  let ?s = "load_format_defaults (s\<lparr>db := ?d\<rparr>)"
  let ?nc = "(new_canon NullT)\<lparr>canon_text := ''null''\<rparr>"
  let ?h = "sha256_bytes L (CHR 0x00 # CHR 0x00 # ''null'')"
  have m: "meta_get ?d ''hash_format'' = Some ''felix_v03_sep''" "meta_get ?d ''tag_map'' = Some ''felix_v03''"
    by (simp_all add: meta_get_meta_set)
  then have fmt: "tagmap ?s = FelixV03" "hashfmt ?s = FelixV03Sep" and d: "db ?s = ?d"
    by (simp_all add: load_format_defaults_def)
  have lt: "logical_type ?nc = NullT" "canon_text ?nc = ''null''"
    by (simp_all add: new_canon_def)
  have sha: "sha256_typed L FelixV03 FelixV03Sep NullT ''null'' = Inr ?h"
    by (simp add: sha256_typed_def)
  from find_after_insert_value [of "?nc\<lparr>hash := ?h\<rparr>" ?d "CHR 0x00"] obtain x where
    x: "find (\<lambda>r. v_hash r = ?h) (f_values (insert_value_or_ignore ?d (CHR 0x00) (?nc\<lparr>hash := ?h\<rparr>))) = Some x"
    by auto
  have g: "get_or_create_value L ?s ?nc =
      Inr (v_value_id x, ?s\<lparr>db := insert_value_or_ignore ?d (CHR 0x00) (?nc\<lparr>hash := ?h\<rparr>)\<rparr>)"
    by (simp add: get_or_create_value_def fmt d sha x lt Let_def)
  have i: "init_schema L s =
      (Inr (), ?s\<lparr>db := insert_value_or_ignore ?d (CHR 0x00) (?nc\<lparr>hash := ?h\<rparr>),
                   null_value_id := v_value_id x\<rparr>)"
    by (simp add: init_schema_def ensure_null_value_def Let_def g)
  show "fst (init_schema L s) = Inr ()" by (simp add: i)
  show "tagmap (snd (init_schema L s)) = FelixV03" by (simp add: i fmt)
  show "hashfmt (snd (init_schema L s)) = FelixV03Sep" by (simp add: i fmt)
  show "f_values (db (snd (init_schema L s))) =
     f_values (insert_value_or_ignore (db s) (CHR 0x00)
       ((new_canon NullT)\<lparr>canon_text := ''null'',
          hash := sha256_bytes L (CHR 0x00 # CHR 0x00 # ''null'')\<rparr>))"
    by (simp add: i insert_value_or_ignore_cong [of ?d "db s"])
qed

lemma get_or_create_field_exact:
  "\<exists>fid. get_or_create_field L s n =
     (if length n > 256 then Inl FieldTooLong
      else if utf8_roundtrip L n \<noteq> n then Inl BadEncoding
      else Inr (fid, s\<lparr>db := insert_field_or_ignore (db s) (nfc_normalize_utf8 L (trim_copy n))
                  (canonicalize_field_hash L (nfc_normalize_utf8 L (trim_copy n)))\<rparr>))"
proof -
  let ?c = "nfc_normalize_utf8 L (trim_copy n)"
  let ?h = "canonicalize_field_hash L ?c"
  from find_after_insert_field [of ?h "db s" ?c] obtain x where
    "find (\<lambda>r. f_hash r = ?h) (fields_tab (insert_field_or_ignore (db s) ?c ?h)) = Some x"
    by auto
  then show ?thesis
    by (simp add: get_or_create_field_def require_utf8_def Let_def)
qed

lemma get_or_create_value_exact:
  assumes g: "get_or_create_value L s cv = Inr (vid, s')"
  shows "\<exists>h tag. sha256_typed L (tagmap s) (hashfmt s) (logical_type cv)
                   (if logical_type cv = BytesT then canon_blob cv else canon_text cv) = Inr h \<and>
           type_tag_byte (tagmap s) (logical_type cv) = Inr tag \<and>
           db s' = insert_value_or_ignore (db s) tag (cv\<lparr>hash := h\<rparr>) \<and>
           h \<in> v_hash ` set (f_values (db s'))"
proof -
  let ?canon = "if logical_type cv = BytesT then canon_blob cv else canon_text cv"
  from g have big: "\<not> (logical_type cv = TextT \<and> length (canon_text cv) > 1 * 1024 * 1024)"
    "\<not> (logical_type cv = BytesT \<and> length (canon_blob cv) > 4 * 1024 * 1024)"
    by (auto simp: get_or_create_value_def split: if_splits)
  from g big obtain h where h: "sha256_typed L (tagmap s) (hashfmt s) (logical_type cv) ?canon = Inr h"
    by (auto simp: get_or_create_value_def Let_def split: sum.splits)
  from g big h obtain tag where tag: "type_tag_byte (tagmap s) (logical_type cv) = Inr tag"
    by (auto simp: get_or_create_value_def Let_def split: sum.splits)
  let ?d = "insert_value_or_ignore (db s) tag (cv\<lparr>hash := h\<rparr>)"
  from g big h tag obtain x where
    x: "find (\<lambda>r. v_hash r = h) (f_values ?d) = Some x" and s': "s' = s\<lparr>db := ?d\<rparr>"
    by (auto simp: get_or_create_value_def Let_def split: option.splits)
  from x have "x \<in> set (f_values ?d)" "v_hash x = h" by (auto simp: find_Some_iff)
  then have "h \<in> v_hash ` set (f_values ?d)" by (metis imageI)
  with h tag s' show ?thesis by simp
qed

text \<open>What a query does to the two interning tables.\<close>

lemma run_query_fields:
  "fields_tab (db (snd (run_query L c f tv s))) =
     (if length f > 256 \<or> utf8_roundtrip L f \<noteq> f then fields_tab (db s)
      else fields_tab (insert_field_or_ignore (db s) (nfc_normalize_utf8 L (trim_copy f))
             (canonicalize_field_hash L (nfc_normalize_utf8 L (trim_copy f)))))"
proof -
  from get_or_create_field_exact [of L s f] obtain fid where
    g: "get_or_create_field L s f =
     (if length f > 256 then Inl FieldTooLong
      else if utf8_roundtrip L f \<noteq> f then Inl BadEncoding
      else Inr (fid, s\<lparr>db := insert_field_or_ignore (db s) (nfc_normalize_utf8 L (trim_copy f))
                  (canonicalize_field_hash L (nfc_normalize_utf8 L (trim_copy f)))\<rparr>))"
    by blast
  show ?thesis
  proof (cases "length f > 256 \<or> utf8_roundtrip L f \<noteq> f")
    case True
    with g show ?thesis by (auto simp: run_query_def)
  next
    case False
    with g show ?thesis
      by (auto simp: run_query_def split: sum.splits dest: get_or_create_value_tables(2))
  qed
qed

lemma run_query_meta: "meta (db (snd (run_query L c f tv s))) = meta (db s)"
proof (cases "get_or_create_field L s f")
  case (Inl e)
  then show ?thesis by (simp add: run_query_def)
next
  case (Inr p)
  then obtain fid s1 where gf: "get_or_create_field L s f = Inr (fid, s1)" by (cases p) simp
  note t = get_or_create_field_tables(1) [OF gf]
  show ?thesis
  proof (cases "parse_cli_type_value L tv")
    case (Inl e)
    with gf t show ?thesis by (simp add: run_query_def)
  next
    case pr: (Inr cv)
    show ?thesis
    proof (cases "get_or_create_value L s1 cv")
      case (Inl e)
      with gf pr t show ?thesis by (simp add: run_query_def)
    next
      case (Inr q)
      then obtain vid s2 where gv: "get_or_create_value L s1 cv = Inr (vid, s2)" by (cases q) simp
      with gf pr t get_or_create_value_tables(1) [OF gv] show ?thesis by (simp add: run_query_def)
    qed
  qed
qed

lemma run_query_values:
  "case fst (run_query L c f tv s) of
     Inl e \<Rightarrow> f_values (db (snd (run_query L c f tv s))) = f_values (db s)
   | Inr rows \<Rightarrow>
       (\<exists>cv h tag.
          parse_cli_type_value L tv = Inr cv \<and>
          sha256_typed L (tagmap s) (hashfmt s) (logical_type cv)
            (if logical_type cv = BytesT then canon_blob cv else canon_text cv) = Inr h \<and>
          type_tag_byte (tagmap s) (logical_type cv) = Inr tag \<and>
          f_values (db (snd (run_query L c f tv s))) =
            f_values (insert_value_or_ignore (db s) tag (cv\<lparr>hash := h\<rparr>)) \<and>
          h \<in> v_hash ` set (f_values (db (snd (run_query L c f tv s)))))"
proof (cases "get_or_create_field L s f")
  case (Inl e)
  then show ?thesis by (simp add: run_query_def)
next
  case (Inr p)
  then obtain fid s1 where gf: "get_or_create_field L s f = Inr (fid, s1)" by (cases p) simp
  note t = get_or_create_field_tables [OF gf]
  show ?thesis
  proof (cases "parse_cli_type_value L tv")
    case (Inl e)
    with gf t(2) show ?thesis by (simp add: run_query_def)
  next
    case pr: (Inr cv)
    show ?thesis
    proof (cases "get_or_create_value L s1 cv")
      case (Inl e)
      with gf pr t(2) show ?thesis by (simp add: run_query_def)
    next
      case (Inr q)
      then obtain vid s2 where gv: "get_or_create_value L s1 cv = Inr (vid, s2)" by (cases q) simp
      from get_or_create_value_exact [OF gv] obtain h tag where
        h: "sha256_typed L (tagmap s) (hashfmt s) (logical_type cv)
             (if logical_type cv = BytesT then canon_blob cv else canon_text cv) = Inr h" and
        tag: "type_tag_byte (tagmap s) (logical_type cv) = Inr tag" and
        d: "db s2 = insert_value_or_ignore (db s1) tag (cv\<lparr>hash := h\<rparr>)" and
        m: "h \<in> v_hash ` set (f_values (db s2))"
        unfolding t(6,7) by blast
      from d have "f_values (db s2) = f_values (insert_value_or_ignore (db s) tag (cv\<lparr>hash := h\<rparr>))"
        by (simp add: insert_value_or_ignore_cong [OF t(2)])
      with gf pr gv h tag m show ?thesis by (simp add: run_query_def)
    qed
  qed
qed

lemma run_felix_query:
  assumes "cmd = CurrentEq f tv \<or> cmd = EverEq f tv"
  shows "\<exists>c. fst (run_felix L d cmd) = fst (run_query L c f tv (snd (init_schema L (open_store d)))) \<and>
             snd (run_felix L d cmd) = db (snd (run_query L c f tv (snd (init_schema L (open_store d)))))"
proof -
  obtain u store where i: "init_schema L (open_store d) = (u, store)"
    by (cases "init_schema L (open_store d)")
  with init_schema_result(1) [of L "open_store d"] have u: "u = Inr ()" by simp
  from assms show ?thesis
  proof
    assume "cmd = CurrentEq f tv"
    then have "fst (run_felix L d cmd) = fst (run_query L True f tv store) \<and>
        snd (run_felix L d cmd) = db (snd (run_query L True f tv store))"
      by (simp add: run_felix_def i u split: prod.splits)
    then show ?thesis unfolding i by auto
  next
    assume "cmd = EverEq f tv"
    then have "fst (run_felix L d cmd) = fst (run_query L False f tv store) \<and>
        snd (run_felix L d cmd) = db (snd (run_query L False f tv store))"
      by (simp add: run_felix_def i u split: prod.splits)
    then show ?thesis unfolding i by auto
  qed
qed

lemma run_felix_init: "snd (run_felix L d Init) = db (snd (init_schema L (open_store d)))"
  using init_schema_result(1) [of L "open_store d"]
  by (cases "init_schema L (open_store d)") (simp add: run_felix_def)

text \<open>
  Claim C5 (amended). The commands \<open>current_eq\<close> and \<open>ever_eq\<close>, with any field name and
  any typed value, leave the tables \<open>records\<close>, \<open>facts\<close> and \<open>current_facts\<close> unchanged, and
  the table \<open>meta\<close> as the \<^verbatim>\<open>init_schema\<close> of every command leaves it. They change and
  remove no row of \<open>fields\<close> and \<open>f_values\<close>. The table \<open>fields\<close> gets one row, for the
  canonical name, exactly when the name as passed has at most 256 bytes, is valid UTF-8
  and its hash is not in the table, whether the typed value is then accepted or not.
  The table \<open>f_values\<close> is, after a command that fails, as \<^verbatim>\<open>init_schema\<close> leaves it (with
  the row of the null value); after a command that succeeds it has in addition one row
  for the value of the query exactly when the hash of that value was not in the table.
\<close>

theorem queries_keep_log_and_view:
  "(cmd = CurrentEq f tv \<or> cmd = EverEq f tv) \<longrightarrow>
     records (snd (run_felix L d cmd)) = records d \<and>
     facts (snd (run_felix L d cmd)) = facts d \<and>
     current_facts (snd (run_felix L d cmd)) = current_facts d \<and>
     meta (snd (run_felix L d cmd)) = meta (snd (run_felix L d Init)) \<and>
     fields_tab (snd (run_felix L d cmd)) =
       (if length f > 256 \<or> utf8_roundtrip L f \<noteq> f \<or>
           canonicalize_field_hash L (nfc_normalize_utf8 L (trim_copy f)) \<in> f_hash ` set (fields_tab d)
        then fields_tab d
        else fields_tab d @
             [\<lparr>f_field_id = next_rowid (map f_field_id (fields_tab d)),
               f_name_canon = c_str (nfc_normalize_utf8 L (trim_copy f)),
               f_hash = canonicalize_field_hash L (nfc_normalize_utf8 L (trim_copy f))\<rparr>]) \<and>
     (case fst (run_felix L d cmd) of
        Inl e \<Rightarrow> f_values (snd (run_felix L d cmd)) = f_values (snd (run_felix L d Init))
      | Inr rows \<Rightarrow>
          (\<exists>cv h tag.
             parse_cli_type_value L tv = Inr cv \<and>
             sha256_typed L FelixV03 FelixV03Sep (logical_type cv)
               (if logical_type cv = BytesT then canon_blob cv else canon_text cv) = Inr h \<and>
             type_tag_byte FelixV03 (logical_type cv) = Inr tag \<and>
             f_values (snd (run_felix L d cmd)) =
               (if h \<in> v_hash ` set (f_values (snd (run_felix L d Init)))
                then f_values (snd (run_felix L d Init))
                else f_values (snd (run_felix L d Init)) @
                     [\<lparr>v_value_id = next_rowid (map v_value_id (f_values (snd (run_felix L d Init)))),
                       v_type_tag = of_char tag,
                       v_canon_text = (if logical_type cv = BytesT then None
                                       else Some (c_str (canon_text cv))),
                       v_canon_blob = (if logical_type cv = BytesT then Some (canon_blob cv)
                                       else None),
                       v_hash = h\<rparr>]))) \<and>
     f_values (snd (run_felix L d Init)) =
       (if sha256_bytes L (CHR 0x00 # CHR 0x00 # ''null'') \<in> v_hash ` set (f_values d)
        then f_values d
        else f_values d @
             [\<lparr>v_value_id = next_rowid (map v_value_id (f_values d)),
               v_type_tag = 0,
               v_canon_text = Some ''null'',
               v_canon_blob = None,
               v_hash = sha256_bytes L (CHR 0x00 # CHR 0x00 # ''null'')\<rparr>])"
proof
  assume q: "cmd = CurrentEq f tv \<or> cmd = EverEq f tv"
  let ?S = "snd (init_schema L (open_store d))"
  let ?c = "nfc_normalize_utf8 L (trim_copy f)"
  let ?h = "canonicalize_field_hash L ?c"
  from run_felix_query [OF q, of L d] obtain c where
    r1: "fst (run_felix L d cmd) = fst (run_query L c f tv ?S)" and
    r2: "snd (run_felix L d cmd) = db (snd (run_query L c f tv ?S))"
    by blast
  note i = run_felix_init [of L d]
  have S: "records (db ?S) = records d" "facts (db ?S) = facts d"
    "current_facts (db ?S) = current_facts d" "fields_tab (db ?S) = fields_tab d"
    by (simp_all add: init_schema_tables)
  have 1: "records (snd (run_felix L d cmd)) = records d"
    by (simp add: r2 run_query_tables S)
  have 2: "facts (snd (run_felix L d cmd)) = facts d"
    by (simp add: r2 run_query_tables S)
  have 3: "current_facts (snd (run_felix L d cmd)) = current_facts d"
    by (simp add: r2 run_query_tables S)
  have 4: "meta (snd (run_felix L d cmd)) = meta (snd (run_felix L d Init))"
    by (simp add: r2 i run_query_meta)
  have "fields_tab (snd (run_felix L d cmd)) =
     (if length f > 256 \<or> utf8_roundtrip L f \<noteq> f then fields_tab d
      else fields_tab (insert_field_or_ignore d ?c ?h))"
    by (simp add: r2 run_query_fields S insert_field_or_ignore_cong [OF S(4)])
  then have 5: "fields_tab (snd (run_felix L d cmd)) =
       (if length f > 256 \<or> utf8_roundtrip L f \<noteq> f \<or> ?h \<in> f_hash ` set (fields_tab d)
        then fields_tab d
        else fields_tab d @
             [\<lparr>f_field_id = next_rowid (map f_field_id (fields_tab d)),
               f_name_canon = c_str ?c, f_hash = ?h\<rparr>])"
    by (simp add: insert_field_or_ignore_def)
  have ins: "f_values (insert_value_or_ignore (db ?S) tag cv) =
      (if hash cv \<in> v_hash ` set (f_values (snd (run_felix L d Init)))
       then f_values (snd (run_felix L d Init))
       else f_values (snd (run_felix L d Init)) @
            [\<lparr>v_value_id = next_rowid (map v_value_id (f_values (snd (run_felix L d Init)))),
              v_type_tag = of_char tag,
              v_canon_text = (if logical_type cv = BytesT then None else Some (c_str (canon_text cv))),
              v_canon_blob = (if logical_type cv = BytesT then Some (canon_blob cv) else None),
              v_hash = hash cv\<rparr>])" for tag cv
    by (simp add: insert_value_or_ignore_def i)
  have 6: "case fst (run_felix L d cmd) of
        Inl e \<Rightarrow> f_values (snd (run_felix L d cmd)) = f_values (snd (run_felix L d Init))
      | Inr rows \<Rightarrow>
          (\<exists>cv h tag.
             parse_cli_type_value L tv = Inr cv \<and>
             sha256_typed L FelixV03 FelixV03Sep (logical_type cv)
               (if logical_type cv = BytesT then canon_blob cv else canon_text cv) = Inr h \<and>
             type_tag_byte FelixV03 (logical_type cv) = Inr tag \<and>
             f_values (snd (run_felix L d cmd)) =
               (if h \<in> v_hash ` set (f_values (snd (run_felix L d Init)))
                then f_values (snd (run_felix L d Init))
                else f_values (snd (run_felix L d Init)) @
                     [\<lparr>v_value_id = next_rowid (map v_value_id (f_values (snd (run_felix L d Init)))),
                       v_type_tag = of_char tag,
                       v_canon_text = (if logical_type cv = BytesT then None
                                       else Some (c_str (canon_text cv))),
                       v_canon_blob = (if logical_type cv = BytesT then Some (canon_blob cv)
                                       else None),
                       v_hash = h\<rparr>]))"
  proof (cases "fst (run_query L c f tv ?S)")
    case (Inl e)
    with run_query_values [of L c f tv ?S] show ?thesis
      by (simp add: r1 r2 i)
  next
    case (Inr rows)
    with run_query_values [of L c f tv ?S] obtain cv h tag where
      a: "parse_cli_type_value L tv = Inr cv" and
      b: "sha256_typed L FelixV03 FelixV03Sep (logical_type cv)
            (if logical_type cv = BytesT then canon_blob cv else canon_text cv) = Inr h" and
      t: "type_tag_byte FelixV03 (logical_type cv) = Inr tag" and
      v: "f_values (db (snd (run_query L c f tv ?S))) =
            f_values (insert_value_or_ignore (db ?S) tag (cv\<lparr>hash := h\<rparr>))"
      by (auto simp: init_schema_result(2,3))
    from v have "f_values (snd (run_felix L d cmd)) =
        (if h \<in> v_hash ` set (f_values (snd (run_felix L d Init)))
                then f_values (snd (run_felix L d Init))
                else f_values (snd (run_felix L d Init)) @
                     [\<lparr>v_value_id = next_rowid (map v_value_id (f_values (snd (run_felix L d Init)))),
                       v_type_tag = of_char tag,
                       v_canon_text = (if logical_type cv = BytesT then None
                                       else Some (c_str (canon_text cv))),
                       v_canon_blob = (if logical_type cv = BytesT then Some (canon_blob cv)
                                       else None),
                       v_hash = h\<rparr>])"
      unfolding r2 ins by simp
    with a b t Inr show ?thesis by (simp add: r1)
  qed
  have 7: "f_values (snd (run_felix L d Init)) =
       (if sha256_bytes L (CHR 0x00 # CHR 0x00 # ''null'') \<in> v_hash ` set (f_values d)
        then f_values d
        else f_values d @
             [\<lparr>v_value_id = next_rowid (map v_value_id (f_values d)),
               v_type_tag = 0,
               v_canon_text = Some ''null'',
               v_canon_blob = None,
               v_hash = sha256_bytes L (CHR 0x00 # CHR 0x00 # ''null'')\<rparr>])"
    by (simp add: i init_schema_result(4) insert_value_or_ignore_def new_canon_def c_str_def)
  from 1 2 3 4 5 6 7 show "records (snd (run_felix L d cmd)) = records d \<and>
     facts (snd (run_felix L d cmd)) = facts d \<and>
     current_facts (snd (run_felix L d cmd)) = current_facts d \<and>
     meta (snd (run_felix L d cmd)) = meta (snd (run_felix L d Init)) \<and>
     fields_tab (snd (run_felix L d cmd)) =
       (if length f > 256 \<or> utf8_roundtrip L f \<noteq> f \<or>
           canonicalize_field_hash L (nfc_normalize_utf8 L (trim_copy f)) \<in> f_hash ` set (fields_tab d)
        then fields_tab d
        else fields_tab d @
             [\<lparr>f_field_id = next_rowid (map f_field_id (fields_tab d)),
               f_name_canon = c_str (nfc_normalize_utf8 L (trim_copy f)),
               f_hash = canonicalize_field_hash L (nfc_normalize_utf8 L (trim_copy f))\<rparr>]) \<and>
     (case fst (run_felix L d cmd) of
        Inl e \<Rightarrow> f_values (snd (run_felix L d cmd)) = f_values (snd (run_felix L d Init))
      | Inr rows \<Rightarrow>
          (\<exists>cv h tag.
             parse_cli_type_value L tv = Inr cv \<and>
             sha256_typed L FelixV03 FelixV03Sep (logical_type cv)
               (if logical_type cv = BytesT then canon_blob cv else canon_text cv) = Inr h \<and>
             type_tag_byte FelixV03 (logical_type cv) = Inr tag \<and>
             f_values (snd (run_felix L d cmd)) =
               (if h \<in> v_hash ` set (f_values (snd (run_felix L d Init)))
                then f_values (snd (run_felix L d Init))
                else f_values (snd (run_felix L d Init)) @
                     [\<lparr>v_value_id = next_rowid (map v_value_id (f_values (snd (run_felix L d Init)))),
                       v_type_tag = of_char tag,
                       v_canon_text = (if logical_type cv = BytesT then None
                                       else Some (c_str (canon_text cv))),
                       v_canon_blob = (if logical_type cv = BytesT then Some (canon_blob cv)
                                       else None),
                       v_hash = h\<rparr>]))) \<and>
     f_values (snd (run_felix L d Init)) =
       (if sha256_bytes L (CHR 0x00 # CHR 0x00 # ''null'') \<in> v_hash ` set (f_values d)
        then f_values d
        else f_values d @
             [\<lparr>v_value_id = next_rowid (map v_value_id (f_values d)),
               v_type_tag = 0,
               v_canon_text = Some ''null'',
               v_canon_blob = None,
               v_hash = sha256_bytes L (CHR 0x00 # CHR 0x00 # ''null'')\<rparr>])"
    by (intro conjI)
qed

theorem queries_keep_log_and_view_witness:
  "fst (run_felix ascii_lib (snd (run_felix ascii_lib empty_db (Ingest 1 1000 ''event'' [''Name=text:Luke''])))
          (CurrentEq ''Name'' ''text:Luke'')) = Inr [1] \<and>
   facts (snd (run_felix ascii_lib (snd (run_felix ascii_lib empty_db (Ingest 1 1000 ''event'' [''Name=text:Luke''])))
          (CurrentEq ''Name'' ''text:Luke''))) =
     [\<lparr>record_id = 1, field_id = 1, value_id = 2, ts_ms = 1000\<rparr>] \<and>
   fields_tab (snd (run_felix ascii_lib (snd (run_felix ascii_lib empty_db (Ingest 1 1000 ''event'' [''Name=text:Luke''])))
          (CurrentEq ''Name'' ''text:Luke''))) =
     [\<lparr>f_field_id = 1, f_name_canon = ''Name'', f_hash = ''fieldName''\<rparr>] \<and>
   fst (run_felix ascii_lib (snd (run_felix ascii_lib empty_db Init)) (EverEq ''Age'' ''foo:1'')) =
     Inl ParseError \<and>
   fields_tab (snd (run_felix ascii_lib (snd (run_felix ascii_lib empty_db Init)) (EverEq ''Age'' ''foo:1''))) =
     [\<lparr>f_field_id = 1, f_name_canon = ''Age'', f_hash = ''fieldAge''\<rparr>] \<and>
   f_values (snd (run_felix ascii_lib (snd (run_felix ascii_lib empty_db Init)) (EverEq ''Age'' ''foo:1''))) =
     f_values (snd (run_felix ascii_lib empty_db Init))"
proof -
  let ?d = "snd (run_felix ascii_lib empty_db (Ingest 1 1000 ''event'' [''Name=text:Luke'']))"
  let ?ini = "snd (run_felix ascii_lib empty_db Init)"
  have a: "fst (run_felix ascii_lib ?d (CurrentEq ''Name'' ''text:Luke'')) = Inr [1]"
    by (simp add: felix_eval)
  have b: "facts ?d = [\<lparr>record_id = 1, field_id = 1, value_id = 2, ts_ms = 1000\<rparr>]"
    by (simp add: felix_eval)
  have c: "fields_tab ?d = [\<lparr>f_field_id = 1, f_name_canon = ''Name'', f_hash = ''fieldName''\<rparr>]"
    by (simp add: felix_eval)
  have h: "canonicalize_field_hash ascii_lib (nfc_normalize_utf8 ascii_lib (trim_copy ''Name'')) =
      ''fieldName''"
    by (simp add: felix_eval)
  have u: "utf8_roundtrip ascii_lib ''Name'' = ''Name''" by (simp add: ascii_lib_def)
  note W1 = queries_keep_log_and_view [where cmd = "CurrentEq ''Name'' ''text:Luke''"
      and f = "''Name''" and tv = "''text:Luke''" and L = ascii_lib and d = ?d]
  note W2 = queries_keep_log_and_view [where cmd = "EverEq ''Age'' ''foo:1''"
      and f = "''Age''" and tv = "''foo:1''" and L = ascii_lib and d = ?ini]
  from W1 have 2: "facts (snd (run_felix ascii_lib ?d (CurrentEq ''Name'' ''text:Luke''))) = facts ?d"
    by blast
  from W1 have "fields_tab (snd (run_felix ascii_lib ?d (CurrentEq ''Name'' ''text:Luke''))) =
       (if length ''Name'' > 256 \<or> utf8_roundtrip ascii_lib ''Name'' \<noteq> ''Name'' \<or>
           canonicalize_field_hash ascii_lib (nfc_normalize_utf8 ascii_lib (trim_copy ''Name''))
             \<in> f_hash ` set (fields_tab ?d)
        then fields_tab ?d
        else fields_tab ?d @
             [\<lparr>f_field_id = next_rowid (map f_field_id (fields_tab ?d)),
               f_name_canon = c_str (nfc_normalize_utf8 ascii_lib (trim_copy ''Name'')),
               f_hash = canonicalize_field_hash ascii_lib (nfc_normalize_utf8 ascii_lib (trim_copy ''Name''))\<rparr>])"
    by blast
  then have 3: "fields_tab (snd (run_felix ascii_lib ?d (CurrentEq ''Name'' ''text:Luke''))) =
      [\<lparr>f_field_id = 1, f_name_canon = ''Name'', f_hash = ''fieldName''\<rparr>]"
    unfolding h u c by simp
  have 4: "fst (run_felix ascii_lib ?ini (EverEq ''Age'' ''foo:1'')) = Inl ParseError"
    by (simp add: felix_eval)
  have 5: "fields_tab (snd (run_felix ascii_lib ?ini (EverEq ''Age'' ''foo:1''))) =
      [\<lparr>f_field_id = 1, f_name_canon = ''Age'', f_hash = ''fieldAge''\<rparr>]"
    by (simp add: felix_eval)
  from W2 have "case fst (run_felix ascii_lib ?ini (EverEq ''Age'' ''foo:1'')) of
        Inl e \<Rightarrow> f_values (snd (run_felix ascii_lib ?ini (EverEq ''Age'' ''foo:1''))) =
                  f_values (snd (run_felix ascii_lib ?ini Init))
      | Inr rows \<Rightarrow> True"
    by (auto split: sum.splits)
  then have "f_values (snd (run_felix ascii_lib ?ini (EverEq ''Age'' ''foo:1''))) =
      f_values (snd (run_felix ascii_lib ?ini Init))"
    unfolding 4 by simp
  moreover have "f_values (snd (run_felix ascii_lib ?ini Init)) = f_values ?ini"
    by (simp add: felix_eval)
  ultimately have 6: "f_values (snd (run_felix ascii_lib ?ini (EverEq ''Age'' ''foo:1''))) = f_values ?ini"
    by simp
  from a 2 [unfolded b] 3 4 5 6 show ?thesis by (intro conjI)
qed

text \<open>
  C5 as stated fails: on an initialised database, \<open>current_eq\<close> with a field name never
  seen before adds a row to the table \<open>fields\<close>.
\<close>

theorem query_interns_field_counterexample:
  "fields_tab (snd (run_felix ascii_lib empty_db Init)) = [] \<and>
   fields_tab (snd (run_felix ascii_lib (snd (run_felix ascii_lib empty_db Init))
                      (CurrentEq ''Name'' ''text:Luke''))) =
     [\<lparr>f_field_id = 1, f_name_canon = ''Name'', f_hash = ''fieldName''\<rparr>]"
  by (simp add: felix_eval)

section \<open>The current view after ingests\<close>

text \<open>
  Claim C1. From a store whose log and current view are empty, after any sequence of
  ingest calls, in either mode and with time stamps in any order (a failed call leaves
  the store as it was), every pair of record and field that has a fact has exactly one
  current row, whose time stamp is the maximum over the facts of the pair and whose value
  is that of the fact at that time stamp.
\<close>

theorem ingests_keep_current_is_max:
  assumes "facts (db s) = []" and "current_facts (db s) = []"
  shows "current_is_max (db (run_ingests L s calls))"
proof -
  from assms have "wf_db (db s)" by (rule empty_tables_wf)
  then have "wf_db (db (run_ingests L s calls))" by (rule run_ingests_wf)
  then show ?thesis by (rule wf_db_current_is_max)
qed

theorem ingests_keep_current_is_max_witness:
  "facts (db (fresh_store ascii_lib)) = [] \<and> current_facts (db (fresh_store ascii_lib)) = [] \<and>
   facts (db (run_ingests ascii_lib (fresh_store ascii_lib)
     [\<lparr>call_record = 1, call_ts = 2000, call_mode = ObservationDriven, call_items = [text_item ''A'' ''x'']\<rparr>,
      \<lparr>call_record = 1, call_ts = 1000, call_mode = ObservationDriven, call_items = [text_item ''A'' ''y'']\<rparr>,
      \<lparr>call_record = 1, call_ts = 3000, call_mode = EventDriven,
        call_items = [text_item ''A'' ''z'', text_item ''B'' ''x'']\<rparr>])) =
     [\<lparr>record_id = 1, field_id = 1, value_id = 2, ts_ms = 2000\<rparr>,
      \<lparr>record_id = 1, field_id = 1, value_id = 3, ts_ms = 1000\<rparr>,
      \<lparr>record_id = 1, field_id = 1, value_id = 4, ts_ms = 3000\<rparr>,
      \<lparr>record_id = 1, field_id = 2, value_id = 2, ts_ms = 3000\<rparr>] \<and>
   current_facts (db (run_ingests ascii_lib (fresh_store ascii_lib)
     [\<lparr>call_record = 1, call_ts = 2000, call_mode = ObservationDriven, call_items = [text_item ''A'' ''x'']\<rparr>,
      \<lparr>call_record = 1, call_ts = 1000, call_mode = ObservationDriven, call_items = [text_item ''A'' ''y'']\<rparr>,
      \<lparr>call_record = 1, call_ts = 3000, call_mode = EventDriven,
        call_items = [text_item ''A'' ''z'', text_item ''B'' ''x'']\<rparr>])) =
     [\<lparr>record_id = 1, field_id = 1, value_id = 4, ts_ms = 3000\<rparr>,
      \<lparr>record_id = 1, field_id = 2, value_id = 2, ts_ms = 3000\<rparr>] \<and>
   current_is_max (db (run_ingests ascii_lib (fresh_store ascii_lib)
     [\<lparr>call_record = 1, call_ts = 2000, call_mode = ObservationDriven, call_items = [text_item ''A'' ''x'']\<rparr>,
      \<lparr>call_record = 1, call_ts = 1000, call_mode = ObservationDriven, call_items = [text_item ''A'' ''y'']\<rparr>,
      \<lparr>call_record = 1, call_ts = 3000, call_mode = EventDriven,
        call_items = [text_item ''A'' ''z'', text_item ''B'' ''x'']\<rparr>]))"
proof -
  let ?calls =
    "[\<lparr>call_record = 1, call_ts = 2000, call_mode = ObservationDriven, call_items = [text_item ''A'' ''x'']\<rparr>,
      \<lparr>call_record = 1, call_ts = 1000, call_mode = ObservationDriven, call_items = [text_item ''A'' ''y'']\<rparr>,
      \<lparr>call_record = 1, call_ts = 3000, call_mode = EventDriven,
        call_items = [text_item ''A'' ''z'', text_item ''B'' ''x'']\<rparr>]"
  have a: "facts (db (fresh_store ascii_lib)) = []"
    by (simp add: felix_eval)
  have b: "current_facts (db (fresh_store ascii_lib)) = []"
    by (simp add: felix_eval)
  have c: "current_is_max (db (run_ingests ascii_lib (fresh_store ascii_lib) ?calls))"
    by (rule ingests_keep_current_is_max [OF a b])
  have d: "facts (db (run_ingests ascii_lib (fresh_store ascii_lib) ?calls)) =
     [\<lparr>record_id = 1, field_id = 1, value_id = 2, ts_ms = 2000\<rparr>,
      \<lparr>record_id = 1, field_id = 1, value_id = 3, ts_ms = 1000\<rparr>,
      \<lparr>record_id = 1, field_id = 1, value_id = 4, ts_ms = 3000\<rparr>,
      \<lparr>record_id = 1, field_id = 2, value_id = 2, ts_ms = 3000\<rparr>]"
    by (simp add: felix_eval text_item_def)
  have e: "current_facts (db (run_ingests ascii_lib (fresh_store ascii_lib) ?calls)) =
     [\<lparr>record_id = 1, field_id = 1, value_id = 4, ts_ms = 3000\<rparr>,
      \<lparr>record_id = 1, field_id = 2, value_id = 2, ts_ms = 3000\<rparr>]"
    by (simp add: felix_eval text_item_def)
  from a b c d e show ?thesis by (intro conjI)
qed
section \<open>Rebuilding the current view\<close>

lemma fk_ok_current_facts_update [simp]: "fk_ok (d\<lparr>current_facts := cs\<rparr>) f = fk_ok d f"
  by (simp add: fk_ok_def)

lemma insert_current_rows_ok:
  assumes "distinct (map pair_key (cur @ rows))" and "\<forall>f\<in>set rows. fk_ok d f"
  shows "insert_current_rows d cur rows = Inr (cur @ rows)"
  using assms
proof (induction rows arbitrary: cur)
  case Nil
  then show ?case by simp
next
  case (Cons f fs)
  from Cons.prems(1) have "pair_key f \<notin> pair_key ` set cur" by auto
  then have "\<forall>c\<in>set cur. pair_key c \<noteq> pair_key f" by (metis imageI)
  then have n: "\<not> (\<exists>c\<in>set cur. same_pair (record_id f) (field_id f) c)"
    by (simp add: same_pair_key')
  from Cons.prems have "insert_current_rows d (cur @ [f]) fs = Inr ((cur @ [f]) @ fs)"
    by (intro Cons.IH) simp_all
  with n Cons.prems(2) show ?case by simp
qed

text \<open>The rows the join selects, without \<open>Max\<close>: no fact of the same pair is newer.\<close>

lemma latest_iff:
  assumes "f \<in> set fs"
  shows "ts_ms f = group_max_ts fs (record_id f) (field_id f) \<longleftrightarrow>
         (\<forall>g\<in>set fs. same_pair (record_id f) (field_id f) g \<longrightarrow> ts_ms g \<le> ts_ms f)"
proof -
  let ?gs = "filter (same_pair (record_id f) (field_id f)) fs"
  have fin: "finite (ts_ms ` set ?gs)" by simp
  have mem: "ts_ms f \<in> ts_ms ` set ?gs"
    using assms by (simp add: same_pair_def)
  show ?thesis
  proof
    assume m: "ts_ms f = group_max_ts fs (record_id f) (field_id f)"
    show "\<forall>g\<in>set fs. same_pair (record_id f) (field_id f) g \<longrightarrow> ts_ms g \<le> ts_ms f"
    proof (intro ballI impI)
      fix g
      assume "g \<in> set fs" "same_pair (record_id f) (field_id f) g"
      then have "ts_ms g \<in> ts_ms ` set ?gs" by simp
      from Max_ge [OF fin this] show "ts_ms g \<le> ts_ms f"
        by (simp add: m group_max_ts_def)
    qed
  next
    assume a: "\<forall>g\<in>set fs. same_pair (record_id f) (field_id f) g \<longrightarrow> ts_ms g \<le> ts_ms f"
    have "Max (ts_ms ` set ?gs) = ts_ms f"
      by (rule Max_eqI [OF fin _ mem]) (use a in auto)
    then show "ts_ms f = group_max_ts fs (record_id f) (field_id f)"
      by (simp add: group_max_ts_def)
  qed
qed

lemma latest_facts_set_iff:
  "set (latest_facts fs) =
     {f \<in> set fs. \<forall>g\<in>set fs. same_pair (record_id f) (field_id f) g \<longrightarrow> ts_ms g \<le> ts_ms f}"
  using latest_iff [of _ fs] by (auto simp: latest_facts_def)

lemma group_max_attained:
  assumes "g \<in> set fs"
  shows "\<exists>c\<in>set fs. pair_key c = pair_key g \<and> ts_ms c = group_max_ts fs (record_id g) (field_id g)"
proof -
  let ?gs = "filter (same_pair (record_id g) (field_id g)) fs"
  have "g \<in> set ?gs" using assms by (simp add: same_pair_def)
  then have "ts_ms g \<in> ts_ms ` set ?gs" by (rule imageI)
  then have "ts_ms ` set ?gs \<noteq> {}" by (metis empty_iff)
  then have "Max (ts_ms ` set ?gs) \<in> ts_ms ` set ?gs"
    by (intro Max_in) simp_all
  then obtain c where "c \<in> set ?gs" "ts_ms c = Max (ts_ms ` set ?gs)"
    by (metis (no_types, lifting) imageE)
  then show ?thesis
    by (auto simp: same_pair_key' group_max_ts_def)
qed

lemma group_max_ge:
  assumes "g \<in> set fs"
  shows "ts_ms g \<le> group_max_ts fs (record_id g) (field_id g)"
proof -
  let ?gs = "filter (same_pair (record_id g) (field_id g)) fs"
  have "ts_ms g \<in> ts_ms ` set ?gs" using assms by (simp add: same_pair_def)
  then show ?thesis
    unfolding group_max_ts_def by (intro Max_ge) simp_all
qed

lemma view_ok_latest_facts:
  assumes df: "distinct (map fact_key fs)"
  shows "view_ok fs (latest_facts fs)"
proof -
  have grp: "group_max_ts fs (record_id c) (field_id c) = group_max_ts fs (record_id g) (field_id g)"
    if "pair_key c = pair_key g" for c g
    using that by (simp add: pair_key_def)
  have 1: "distinct (map pair_key (latest_facts fs))"
  proof -
    from df have "distinct fs" by (simp add: distinct_map)
    then have d: "distinct (latest_facts fs)" by (simp add: latest_facts_def)
    have "inj_on pair_key (set (latest_facts fs))"
    proof (rule inj_onI)
      fix x y
      assume x: "x \<in> set (latest_facts fs)" and y: "y \<in> set (latest_facts fs)"
        and k: "pair_key x = pair_key y"
      from x y have "ts_ms x = group_max_ts fs (record_id x) (field_id x)"
        "ts_ms y = group_max_ts fs (record_id y) (field_id y)" "x \<in> set fs" "y \<in> set fs"
        by (simp_all add: latest_facts_def)
      with grp [OF k] k have "fact_key x = fact_key y" "x \<in> set fs" "y \<in> set fs"
        by (simp_all add: fact_key_pair)
      then show "x = y" using distinct_map_eq [OF df, of x y] by simp
    qed
    with d show ?thesis by (simp add: distinct_map)
  qed
  have 2: "set (latest_facts fs) \<subseteq> set fs" by (simp add: latest_facts_def)
  have 3: "\<forall>g\<in>set fs. \<exists>c\<in>set (latest_facts fs). pair_key c = pair_key g \<and> ts_ms g \<le> ts_ms c"
  proof
    fix g
    assume g: "g \<in> set fs"
    from group_max_attained [OF g] obtain c where c: "c \<in> set fs" "pair_key c = pair_key g"
      "ts_ms c = group_max_ts fs (record_id g) (field_id g)" by blast
    from c grp [OF c(2)] have "c \<in> set (latest_facts fs)" by (simp add: latest_facts_def)
    moreover from group_max_ge [OF g] c(3) have "ts_ms g \<le> ts_ms c" by simp
    ultimately show "\<exists>c\<in>set (latest_facts fs). pair_key c = pair_key g \<and> ts_ms g \<le> ts_ms c"
      using c(2) by blast
  qed
  from df 1 2 3 show ?thesis unfolding view_ok_iff by blast
qed

lemma rebuild_current_facts_result:
  assumes df: "distinct (map fact_key (facts (db s)))"
    and fk: "list_all (fk_ok (db s)) (facts (db s))"
  shows "rebuild_current_facts s =
           (Inr (), s\<lparr>db := (db s)\<lparr>current_facts := latest_facts (facts (db s))\<rparr>\<rparr>)"
proof -
  let ?d = "(db s)\<lparr>current_facts := []\<rparr>"
  from view_ok_latest_facts [OF df] have "distinct (map pair_key (latest_facts (facts (db s))))"
    by (simp add: view_ok_iff)
  moreover have "\<forall>f\<in>set (latest_facts (facts (db s))). fk_ok ?d f"
    using fk by (simp add: latest_facts_def list_all_iff)
  ultimately have "insert_current_rows ?d [] (latest_facts (facts (db s))) =
      Inr ([] @ latest_facts (facts (db s)))"
    by (intro insert_current_rows_ok) simp_all
  then show ?thesis by (simp add: rebuild_current_facts_def)
qed

lemma rebuild_current_facts_wf:
  assumes df: "distinct (map fact_key (facts (db s)))"
    and fk: "list_all (fk_ok (db s)) (facts (db s))"
  shows "wf_db (db (snd (rebuild_current_facts s)))"
  using view_ok_latest_facts [OF df] fk
  by (simp add: rebuild_current_facts_result [OF df fk] wf_db_def list_all_iff)

lemma latest_facts_mset:
  assumes v: "view_ok fs cs"
  shows "mset (latest_facts fs) = mset cs"
proof -
  from v have df: "distinct (map fact_key fs)" and dc: "distinct (map pair_key cs)"
    and sub: "set cs \<subseteq> set fs"
    and cov: "\<forall>g\<in>set fs. \<exists>c\<in>set cs. pair_key c = pair_key g \<and> ts_ms g \<le> ts_ms c"
    by (simp_all add: view_ok_iff)
  have "set (latest_facts fs) = set cs"
  proof (intro set_eqI iffI)
    fix g
    assume "g \<in> set (latest_facts fs)"
    then have g: "g \<in> set fs" "ts_ms g = group_max_ts fs (record_id g) (field_id g)"
      by (simp_all add: latest_facts_def)
    from cov g(1) obtain c where c: "c \<in> set cs" "pair_key c = pair_key g" by blast
    have "group_max_ts fs (record_id c) (field_id c) = ts_ms c"
      by (rule view_ok_covers_max [OF v c(1)])
    moreover from c(2) have "record_id c = record_id g" "field_id c = field_id g"
      by (simp_all add: pair_key_def)
    ultimately have "ts_ms c = ts_ms g" using g(2) by simp
    with c(2) have k: "fact_key c = fact_key g" by (simp add: fact_key_pair)
    have "c \<in> set fs" using c(1) sub by blast
    then have "c = g" using g(1) k by (rule distinct_map_eq [OF df])
    with c(1) show "g \<in> set cs" by simp
  next
    fix c
    assume c: "c \<in> set cs"
    with sub have "c \<in> set fs" by blast
    with view_ok_covers_max [OF v c] show "c \<in> set (latest_facts fs)"
      by (simp add: latest_facts_def)
  qed
  moreover from df dc have "distinct fs" and "distinct cs"
    by (simp_all add: distinct_map)
  moreover from \<open>distinct fs\<close> have "distinct (latest_facts fs)"
    by (simp add: latest_facts_def)
  ultimately show ?thesis
    by (simp add: set_eq_iff_mset_eq_distinct)
qed

text \<open>
  Claim C3. On every store whose log keeps its primary key and its foreign keys,
  whatever the rows of \<^verbatim>\<open>current_facts\<close> were before, \<^verbatim>\<open>rebuild_current_facts\<close> succeeds
  and leaves in \<^verbatim>\<open>current_facts\<close> exactly the facts that no fact of the same record and
  field is newer than, each once; the view it leaves is the maximum view of the log and
  the other tables are as before. After any sequence of ingest calls from a store whose
  log and current view are empty, the rebuilt table has the same rows as the table the
  ingests had kept. Tables are compared as multisets of rows.
\<close>

theorem rebuild_equals_incremental_view:
  "(distinct (map fact_key (facts (db s))) \<longrightarrow> list_all (fk_ok (db s)) (facts (db s)) \<longrightarrow>
      fst (rebuild_current_facts s) = Inr () \<and>
      distinct (current_facts (db (snd (rebuild_current_facts s)))) \<and>
      set (current_facts (db (snd (rebuild_current_facts s)))) =
        {f \<in> set (facts (db s)).
           \<forall>g\<in>set (facts (db s)). same_pair (record_id f) (field_id f) g \<longrightarrow> ts_ms g \<le> ts_ms f} \<and>
      current_is_max (db (snd (rebuild_current_facts s))) \<and>
      facts (db (snd (rebuild_current_facts s))) = facts (db s) \<and>
      records (db (snd (rebuild_current_facts s))) = records (db s) \<and>
      fields_tab (db (snd (rebuild_current_facts s))) = fields_tab (db s) \<and>
      f_values (db (snd (rebuild_current_facts s))) = f_values (db s) \<and>
      meta (db (snd (rebuild_current_facts s))) = meta (db s)) \<and>
   (facts (db s0) = [] \<longrightarrow> current_facts (db s0) = [] \<longrightarrow>
      fst (rebuild_current_facts (run_ingests L s0 calls)) = Inr () \<and>
      mset (current_facts (db (snd (rebuild_current_facts (run_ingests L s0 calls))))) =
        mset (current_facts (db (run_ingests L s0 calls))))"
proof (intro conjI impI)
  assume df: "distinct (map fact_key (facts (db s)))"
    and fk: "list_all (fk_ok (db s)) (facts (db s))"
  note r = rebuild_current_facts_result [OF df fk]
  show "fst (rebuild_current_facts s) = Inr ()" by (simp add: r)
  from df have "distinct (facts (db s))" by (simp add: distinct_map)
  then show "distinct (current_facts (db (snd (rebuild_current_facts s))))"
    by (simp add: r latest_facts_def)
  show "set (current_facts (db (snd (rebuild_current_facts s)))) =
        {f \<in> set (facts (db s)).
           \<forall>g\<in>set (facts (db s)). same_pair (record_id f) (field_id f) g \<longrightarrow> ts_ms g \<le> ts_ms f}"
    by (simp add: r latest_facts_set_iff)
  show "current_is_max (db (snd (rebuild_current_facts s)))"
    by (rule wf_db_current_is_max [OF rebuild_current_facts_wf [OF df fk]])
  show "facts (db (snd (rebuild_current_facts s))) = facts (db s)" by (simp add: r)
  show "records (db (snd (rebuild_current_facts s))) = records (db s)" by (simp add: r)
  show "fields_tab (db (snd (rebuild_current_facts s))) = fields_tab (db s)" by (simp add: r)
  show "f_values (db (snd (rebuild_current_facts s))) = f_values (db s)" by (simp add: r)
  show "meta (db (snd (rebuild_current_facts s))) = meta (db s)" by (simp add: r)
next
  assume "facts (db s0) = []" and "current_facts (db s0) = []"
  then have "wf_db (db s0)" by (rule empty_tables_wf)
  then have "wf_db (db (run_ingests L s0 calls))" by (rule run_ingests_wf)
  then have v: "view_ok (facts (db (run_ingests L s0 calls))) (current_facts (db (run_ingests L s0 calls)))"
    and fk: "list_all (fk_ok (db (run_ingests L s0 calls))) (facts (db (run_ingests L s0 calls)))"
    by (simp_all add: wf_db_def)
  from v have df: "distinct (map fact_key (facts (db (run_ingests L s0 calls))))"
    by (simp add: view_ok_iff)
  note r = rebuild_current_facts_result [OF df fk]
  show "fst (rebuild_current_facts (run_ingests L s0 calls)) = Inr ()" by (simp add: r)
  show "mset (current_facts (db (snd (rebuild_current_facts (run_ingests L s0 calls))))) =
        mset (current_facts (db (run_ingests L s0 calls)))"
    by (simp add: r latest_facts_mset [OF v])
qed
theorem rebuild_equals_incremental_view_witness:
  "current_facts (db stale_store) = [\<lparr>record_id = 1, field_id = 1, value_id = 2, ts_ms = 2000\<rparr>] \<and>
   fst (rebuild_current_facts stale_store) = Inr () \<and>
   mset (current_facts (db (snd (rebuild_current_facts stale_store)))) =
     mset [\<lparr>record_id = 1, field_id = 1, value_id = 3, ts_ms = 3000\<rparr>,
           \<lparr>record_id = 1, field_id = 2, value_id = 2, ts_ms = 2500\<rparr>] \<and>
   current_is_max (db (snd (rebuild_current_facts stale_store))) \<and>
   current_facts (db (run_ingests ascii_lib (fresh_store ascii_lib) three_calls)) =
     [\<lparr>record_id = 1, field_id = 1, value_id = 3, ts_ms = 3000\<rparr>,
      \<lparr>record_id = 1, field_id = 2, value_id = 2, ts_ms = 2500\<rparr>] \<and>
   fst (rebuild_current_facts (run_ingests ascii_lib (fresh_store ascii_lib) three_calls)) = Inr () \<and>
   mset (current_facts (db (snd (rebuild_current_facts
      (run_ingests ascii_lib (fresh_store ascii_lib) three_calls))))) =
     mset [\<lparr>record_id = 1, field_id = 1, value_id = 3, ts_ms = 3000\<rparr>,
           \<lparr>record_id = 1, field_id = 2, value_id = 2, ts_ms = 2500\<rparr>]"
proof -
  let ?r = "run_ingests ascii_lib (fresh_store ascii_lib) three_calls"
  have a: "facts (db (fresh_store ascii_lib)) = []"
    by (simp add: felix_eval)
  have b: "current_facts (db (fresh_store ascii_lib)) = []"
    by (simp add: felix_eval)
  have fr: "facts (db ?r) =
     [\<lparr>record_id = 1, field_id = 1, value_id = 2, ts_ms = 2000\<rparr>,
      \<lparr>record_id = 1, field_id = 2, value_id = 2, ts_ms = 2500\<rparr>,
      \<lparr>record_id = 1, field_id = 1, value_id = 3, ts_ms = 3000\<rparr>]"
    by (simp add: felix_eval text_item_def three_calls_def)
  have cr: "current_facts (db ?r) =
     [\<lparr>record_id = 1, field_id = 1, value_id = 3, ts_ms = 3000\<rparr>,
      \<lparr>record_id = 1, field_id = 2, value_id = 2, ts_ms = 2500\<rparr>]"
    by (simp add: felix_eval text_item_def three_calls_def)
  have rr: "records (db ?r) = [(1, 2000)]"
    by (simp add: felix_eval text_item_def three_calls_def)
  have tr: "map f_field_id (fields_tab (db ?r)) = [1, 2]"
    by (simp add: felix_eval text_item_def three_calls_def)
  have vr: "map v_value_id (f_values (db ?r)) = [1, 2, 3]"
    by (simp add: felix_eval text_item_def three_calls_def)
  have fs: "facts (db stale_store) = facts (db ?r)" "records (db stale_store) = records (db ?r)"
    "fields_tab (db stale_store) = fields_tab (db ?r)" "f_values (db stale_store) = f_values (db ?r)"
    by (simp_all add: stale_store_def Let_def)
  have cs: "current_facts (db stale_store) =
      [\<lparr>record_id = 1, field_id = 1, value_id = 2, ts_ms = 2000\<rparr>]"
    by (simp add: stale_store_def Let_def)
  have df: "distinct (map fact_key (facts (db stale_store)))"
    by (simp add: fs fr fact_key_def)
  have "f_field_id ` set (fields_tab (db ?r)) = set (map f_field_id (fields_tab (db ?r)))"
    "v_value_id ` set (f_values (db ?r)) = set (map v_value_id (f_values (db ?r)))"
    by simp_all
  then have fk: "list_all (fk_ok (db stale_store)) (facts (db stale_store))"
    unfolding tr vr by (simp add: fs fr rr fk_ok_def)
  note T = rebuild_equals_incremental_view [where s = stale_store and ?s0.0 = "fresh_store ascii_lib"
      and L = ascii_lib and calls = three_calls]
  from T df fk have 1: "fst (rebuild_current_facts stale_store) = Inr ()"
    and 2: "distinct (current_facts (db (snd (rebuild_current_facts stale_store))))"
    and 3: "set (current_facts (db (snd (rebuild_current_facts stale_store)))) =
        {f \<in> set (facts (db stale_store)).
           \<forall>g\<in>set (facts (db stale_store)). same_pair (record_id f) (field_id f) g \<longrightarrow> ts_ms g \<le> ts_ms f}"
    and 4: "current_is_max (db (snd (rebuild_current_facts stale_store)))"
    by blast+
  have "{f \<in> set (facts (db stale_store)).
           \<forall>g\<in>set (facts (db stale_store)). same_pair (record_id f) (field_id f) g \<longrightarrow> ts_ms g \<le> ts_ms f} =
        set [\<lparr>record_id = 1, field_id = 1, value_id = 3, ts_ms = 3000\<rparr>,
             \<lparr>record_id = 1, field_id = 2, value_id = 2, ts_ms = 2500\<rparr>]"
    by (auto simp: fs fr same_pair_def)
  with 3 have "set (current_facts (db (snd (rebuild_current_facts stale_store)))) =
        set [\<lparr>record_id = 1, field_id = 1, value_id = 3, ts_ms = 3000\<rparr>,
             \<lparr>record_id = 1, field_id = 2, value_id = 2, ts_ms = 2500\<rparr>]" by simp
  moreover have "distinct [\<lparr>record_id = 1::64 word, field_id = 1::nat, value_id = 3::nat, ts_ms = 3000::int\<rparr>,
             \<lparr>record_id = 1, field_id = 2, value_id = 2, ts_ms = 2500\<rparr>]" by simp
  ultimately have 5: "mset (current_facts (db (snd (rebuild_current_facts stale_store)))) =
     mset [\<lparr>record_id = 1, field_id = 1, value_id = 3, ts_ms = 3000\<rparr>,
           \<lparr>record_id = 1, field_id = 2, value_id = 2, ts_ms = 2500\<rparr>]"
    using 2 by (simp only: set_eq_iff_mset_eq_distinct)
  from T a b have 6: "fst (rebuild_current_facts ?r) = Inr ()"
    and 7: "mset (current_facts (db (snd (rebuild_current_facts ?r)))) = mset (current_facts (db ?r))"
    by blast+
  from cs 1 5 4 cr 6 7 [unfolded cr] show ?thesis by (intro conjI)
qed
section \<open>Ingesting the same value twice\<close>

lemma fold_max_ge: "(a::nat) \<le> fold max ids a \<and> (\<forall>x\<in>set ids. x \<le> fold max ids a)"
proof (induction ids arbitrary: a)
  case Nil
  then show ?case by simp
next
  case (Cons i ids)
  from Cons.IH [of "max i a"] show ?case by auto
qed

lemma next_rowid_fresh: "next_rowid ids \<notin> set ids"
proof
  assume "next_rowid ids \<in> set ids"
  with fold_max_ge [of 0 ids] have "next_rowid ids \<le> fold max ids 0" by blast
  then show False by (simp add: next_rowid_def)
qed

lemma find_filter_single: "filter P xs = [x] \<Longrightarrow> find P xs = Some x"
  by (induction xs) (auto split: if_splits)

lemma find_append_None: "find P xs = None \<Longrightarrow> find P (xs @ ys) = find P ys"
  by (induction xs) (auto split: if_splits)

lemma find_filter_nil: "filter P xs = [] \<Longrightarrow> find P xs = None"
  by (induction xs) (auto split: if_splits)

lemma fk_ok_ts [simp]: "fk_ok d (f\<lparr>ts_ms := t\<rparr>) = fk_ok d f"
  by (simp add: fk_ok_def)

lemma field_id_of_cong:
  "fields_tab d' = fields_tab d \<Longrightarrow> field_id_of L d' n = field_id_of L d n"
  by (simp add: field_id_of_def)

lemma get_or_create_field_again:
  assumes g: "get_or_create_field L s n = Inr (fid, s1)"
    and same: "fields_tab (db s2) = fields_tab (db s1)"
  shows "get_or_create_field L s2 n = Inr (fid, s2)"
proof -
  let ?c = "nfc_normalize_utf8 L (trim_copy n)"
  let ?h = "canonicalize_field_hash L ?c"
  from g have len: "\<not> length n > 256" and utf: "require_utf8 L n = Inr ()"
    by (auto simp: get_or_create_field_def split: if_splits sum.splits)
  from get_or_create_field_result(1) [OF g]
  have s1: "db s1 = insert_field_or_ignore (db s) ?c ?h" by simp
  from g len utf obtain r where
    r: "find (\<lambda>r. f_hash r = ?h) (fields_tab (db s1)) = Some r" and fid: "fid = f_field_id r"
    by (auto simp: get_or_create_field_def Let_def s1 split: option.splits)
  from r same have r2: "find (\<lambda>r. f_hash r = ?h) (fields_tab (db s2)) = Some r" by simp
  then have "r \<in> set (fields_tab (db s2))" and "f_hash r = ?h"
    by (auto simp: find_Some_iff)
  then have "?h \<in> f_hash ` set (fields_tab (db s2))" by (metis imageI)
  then have "insert_field_or_ignore (db s2) ?c ?h = db s2"
    by (simp add: insert_field_or_ignore_def)
  with len utf r2 fid show ?thesis
    by (simp add: get_or_create_field_def Let_def)
qed

lemma get_or_create_value_again:
  assumes g: "get_or_create_value L s cv = Inr (vid, s1)"
    and same: "f_values (db s2) = f_values (db s1)"
    and tm: "tagmap s2 = tagmap s" and hf: "hashfmt s2 = hashfmt s"
  shows "get_or_create_value L s2 cv = Inr (vid, s2)"
proof -
  let ?canon = "if logical_type cv = BytesT then canon_blob cv else canon_text cv"
  from g have big: "\<not> (logical_type cv = TextT \<and> length (canon_text cv) > 1 * 1024 * 1024)"
    "\<not> (logical_type cv = BytesT \<and> length (canon_blob cv) > 4 * 1024 * 1024)"
    by (auto simp: get_or_create_value_def split: if_splits)
  from g big obtain h where h: "sha256_typed L (tagmap s) (hashfmt s) (logical_type cv) ?canon = Inr h"
    by (auto simp: get_or_create_value_def Let_def split: sum.splits)
  from g big h obtain tag where tag: "type_tag_byte (tagmap s) (logical_type cv) = Inr tag"
    by (auto simp: get_or_create_value_def Let_def split: sum.splits)
  let ?d = "insert_value_or_ignore (db s) tag (cv\<lparr>hash := h\<rparr>)"
  from g big h tag obtain r where
    r: "find (\<lambda>r. v_hash r = h) (f_values ?d) = Some r" and vid: "vid = v_value_id r"
    and s1: "s1 = s\<lparr>db := ?d\<rparr>"
    by (auto simp: get_or_create_value_def Let_def split: option.splits)
  from r s1 same have r2: "find (\<lambda>r. v_hash r = h) (f_values (db s2)) = Some r" by simp
  then have "r \<in> set (f_values (db s2))" and "v_hash r = h"
    by (auto simp: find_Some_iff)
  then have "h \<in> v_hash ` set (f_values (db s2))" by (metis imageI)
  then have "insert_value_or_ignore (db s2) tag (cv\<lparr>hash := h\<rparr>) = db s2"
    by (simp add: insert_value_or_ignore_def)
  with big h tag r2 vid tm hf show ?thesis
    by (simp add: get_or_create_value_def Let_def)
qed

lemma fresh_pair_no_facts:
  assumes w: "wf_db (db s)" and e: "pair_facts L (db s) r n = []"
    and g: "get_or_create_field L s0 n = Inr (fid, s1)"
    and same: "fields_tab (db s0) = fields_tab (db s)"
  shows "filter (same_pair r fid) (facts (db s)) = []"
proof -
  let ?c = "nfc_normalize_utf8 L (trim_copy n)"
  let ?h = "canonicalize_field_hash L ?c"
  from get_or_create_field_result(1) [OF g]
  have s1: "db s1 = insert_field_or_ignore (db s0) ?c ?h" by simp
  note fid = get_or_create_field_result(2) [OF g]
  show ?thesis
  proof (cases "?h \<in> f_hash ` set (fields_tab (db s0))")
    case True
    then have "db s1 = db s0" by (simp add: s1 insert_field_or_ignore_def)
    with same have "fields_tab (db s1) = fields_tab (db s)" by simp
    from field_id_of_cong [OF this, of L n] fid have "field_id_of L (db s) n = Some fid" by simp
    with e show ?thesis by (simp add: pair_facts_def)
  next
    case False
    let ?row = "\<lparr>f_field_id = next_rowid (map f_field_id (fields_tab (db s0))),
                 f_name_canon = c_str ?c, f_hash = ?h\<rparr>"
    from False have tab: "fields_tab (db s1) = fields_tab (db s0) @ [?row]"
      by (simp add: s1 insert_field_or_ignore_def)
    from False have "\<forall>x\<in>set (fields_tab (db s0)). f_hash x \<noteq> ?h"
      by (metis imageI)
    then have "find (\<lambda>r. f_hash r = ?h) (fields_tab (db s0)) = None"
      by (simp add: find_None_iff)
    then have "find (\<lambda>r. f_hash r = ?h) (fields_tab (db s1)) = Some ?row"
      by (simp add: tab find_append_None)
    with fid have "fid = next_rowid (map f_field_id (fields_tab (db s0)))"
      by (simp add: field_id_of_def Let_def)
    with next_rowid_fresh [of "map f_field_id (fields_tab (db s0))"] same
    have new: "fid \<notin> f_field_id ` set (fields_tab (db s))" by simp
    from w have "\<forall>g\<in>set (facts (db s)). fk_ok (db s) g"
      by (simp add: wf_db_def list_all_iff)
    then have "\<forall>g\<in>set (facts (db s)). field_id g \<in> f_field_id ` set (fields_tab (db s))"
      by (simp add: fk_ok_def)
    with new have "\<forall>g\<in>set (facts (db s)). \<not> same_pair r fid g"
      by (auto simp: same_pair_def)
    then show ?thesis by (simp add: filter_empty_conv)
  qed
qed
section \<open>One field twice in a call\<close>

lemma find_append_Some: "find P xs = Some x \<Longrightarrow> find P (xs @ ys) = Some x"
  by (induction xs) (auto split: if_splits)

lemma find_map_update:
  assumes "find P xs = Some c" and "\<And>x. P (u x) = P x"
  shows "find P (map u xs) = Some (u c)"
  using assms(1) by (induction xs) (auto simp: assms(2) split: if_splits)

lemma insert_field_or_ignore_append:
  "\<exists>zs. fields_tab (insert_field_or_ignore d c h) = fields_tab d @ zs"
  by (simp add: insert_field_or_ignore_def)

lemma get_or_create_field_append:
  assumes "get_or_create_field L s m = Inr (fid, s1)"
  shows "\<exists>zs. fields_tab (db s1) = fields_tab (db s) @ zs"
proof -
  let ?c = "nfc_normalize_utf8 L (trim_copy m)"
  from get_or_create_field_result(1) [OF assms]
  have "db s1 = insert_field_or_ignore (db s) ?c (canonicalize_field_hash L ?c)" by simp
  with insert_field_or_ignore_append [of "db s" ?c "canonicalize_field_hash L ?c"]
  show ?thesis by simp
qed

lemma field_id_of_append:
  assumes "fields_tab d' = fields_tab d @ zs" and "field_id_of L d n = Some fid"
  shows "field_id_of L d' n = Some fid"
proof -
  let ?h = "canonicalize_field_hash L (nfc_normalize_utf8 L (trim_copy n))"
  from assms(2) obtain x where x: "find (\<lambda>r. f_hash r = ?h) (fields_tab d) = Some x"
    and fid: "f_field_id x = fid"
    by (auto simp: field_id_of_def Let_def)
  from find_append_Some [OF x, of zs] assms(1) fid show ?thesis
    by (simp add: field_id_of_def Let_def)
qed

lemma field_id_of_stable:
  assumes "field_id_of L (db s) n = Some fid" and g: "get_or_create_field L s m = Inr (fid', s1)"
  shows "field_id_of L (db s1) n = Some fid"
proof -
  from get_or_create_field_append [OF g] obtain zs where
    "fields_tab (db s1) = fields_tab (db s) @ zs" by blast
  then show ?thesis using assms(1) by (rule field_id_of_append)
qed

text \<open>What an item that is not skipped does to the tables.\<close>

lemma ingest_item_append_tables:
  assumes gf: "get_or_create_field L s (field_name it) = Inr (fid, s1)"
    and gv: "get_or_create_value L s1 (item_value it) = Inr (vid, s2)"
    and i: "insert_fact s2 f = Inr s3" and u: "upsert_current_if_newer s3 f = Inr s'"
  shows "fields_tab (db s') = fields_tab (db s1)" and "facts (db s') = facts (db s) @ [f]"
    and "f_values (db s') = f_values (db s2)" and "tagmap s' = tagmap s1" and "hashfmt s' = hashfmt s1"
    and "current_facts (db s3) = current_facts (db s)"
proof -
  note s3 = insert_fact_Inr(3) [OF i]
  from upsert_Inr [OF u] obtain cur where s': "s' = s3\<lparr>db := (db s3)\<lparr>current_facts := cur\<rparr>\<rparr>"
    by blast
  show "fields_tab (db s') = fields_tab (db s1)"
    by (simp add: s' s3 get_or_create_value_tables(2) [OF gv])
  show "facts (db s') = facts (db s) @ [f]"
    by (simp add: s' s3 get_or_create_value_tables(4) [OF gv] get_or_create_field_tables(4) [OF gf])
  show "f_values (db s') = f_values (db s2)"
    by (simp add: s' s3)
  show "tagmap s' = tagmap s1"
    by (simp add: s' s3 get_or_create_value_tables(6) [OF gv])
  show "hashfmt s' = hashfmt s1"
    by (simp add: s' s3 get_or_create_value_tables(7) [OF gv])
  show "current_facts (db s3) = current_facts (db s)"
    by (simp add: s3 get_or_create_value_tables(5) [OF gv] get_or_create_field_tables(5) [OF gf])
qed

lemma ingest_item_grows:
  assumes "ingest_item L r' t' mode it s = Inr s'"
  shows "\<exists>zs gs. fields_tab (db s') = fields_tab (db s) @ zs \<and> facts (db s') = facts (db s) @ gs"
  using assms
proof (cases rule: ingest_item_cases)
  case (skip fid s1 vid)
  from get_or_create_field_append [OF skip(1)] obtain zs where
    "fields_tab (db s1) = fields_tab (db s) @ zs" by blast
  then have "fields_tab (db s') = fields_tab (db s) @ zs"
    by (simp add: get_or_create_value_tables(2) [OF skip(2)])
  moreover have "facts (db s') = facts (db s) @ []"
    by (simp add: get_or_create_value_tables(4) [OF skip(2)] get_or_create_field_tables(4) [OF skip(1)])
  ultimately show ?thesis by blast
next
  case (append fid s1 vid s2 s3)
  from get_or_create_field_append [OF append(1)] obtain zs where
    "fields_tab (db s1) = fields_tab (db s) @ zs" by blast
  with ingest_item_append_tables(1,2) [OF append(1,2,4,5)]
  show ?thesis by simp
qed

lemma pair_facts_grows:
  assumes "fields_tab d' = fields_tab d @ zs" and "facts d' = facts d @ gs"
  shows "set (pair_facts L d r n) \<subseteq> set (pair_facts L d' r n)"
proof (cases "field_id_of L d n")
  case None
  then show ?thesis by (simp add: pair_facts_def)
next
  case (Some fid)
  from field_id_of_append [OF assms(1) Some] Some assms(2) show ?thesis
    by (auto simp: pair_facts_def)
qed

lemma ingest_item_pair_facts_mono:
  assumes "ingest_item L r' t' mode it s = Inr s'"
  shows "set (pair_facts L (db s) r n) \<subseteq> set (pair_facts L (db s') r n)"
proof -
  from ingest_item_grows [OF assms] obtain zs gs where
    "fields_tab (db s') = fields_tab (db s) @ zs" "facts (db s') = facts (db s) @ gs" by blast
  then show ?thesis by (rule pair_facts_grows)
qed

lemma ingest_item_observe_adds:
  assumes "ingest_item L r ts ObservationDriven it s = Inr s'"
  shows "ts \<in> ts_ms ` set (pair_facts L (db s') r (field_name it))"
  using assms
proof (cases rule: ingest_item_cases)
  case (skip fid s1 vid)
  then show ?thesis by simp
next
  case (append fid s1 vid s2 s3)
  let ?f = "\<lparr>record_id = r, field_id = fid, value_id = vid, ts_ms = ts\<rparr>"
  note t = ingest_item_append_tables(1,2) [OF append(1,2,4,5)]
  from field_id_of_cong [OF t(1), of L "field_name it"] get_or_create_field_result(2) [OF append(1)]
  have "field_id_of L (db s') (field_name it) = Some fid" by simp
  then have "?f \<in> set (pair_facts L (db s') r (field_name it))"
    by (simp add: pair_facts_def t(2) same_pair_def)
  then have "ts_ms ?f \<in> ts_ms ` set (pair_facts L (db s') r (field_name it))"
    by (rule imageI)
  then show ?thesis by simp
qed

lemma ingest_item_duplicate_fails:
  assumes "ts \<in> ts_ms ` set (pair_facts L (db s) r (field_name it))"
  shows "\<exists>e. ingest_item L r ts ObservationDriven it s = Inl e"
proof (cases "ingest_item L r ts ObservationDriven it s")
  case (Inl e)
  then show ?thesis by blast
next
  case (Inr s')
  from assms obtain g where g: "g \<in> set (pair_facts L (db s) r (field_name it))" "ts_ms g = ts"
    by blast
  then obtain fid0 where f0: "field_id_of L (db s) (field_name it) = Some fid0"
    by (cases "field_id_of L (db s) (field_name it)") (auto simp: pair_facts_def)
  with g have gs: "g \<in> set (facts (db s))" "same_pair r fid0 g"
    by (simp_all add: pair_facts_def)
  from Inr have False
  proof (cases rule: ingest_item_cases)
    case (skip fid s1 vid)
    then show ?thesis by simp
  next
    case (append fid s1 vid s2 s3)
    let ?f = "\<lparr>record_id = r, field_id = fid, value_id = vid, ts_ms = ts\<rparr>"
    from field_id_of_stable [OF f0 append(1)] get_or_create_field_result(2) [OF append(1)]
    have "fid = fid0" by simp
    with gs(2) g(2) have "fact_key g = fact_key ?f"
      by (simp add: fact_key_def same_pair_def)
    moreover have "facts (db s2) = facts (db s)"
      by (simp add: get_or_create_value_tables(4) [OF append(2)]
            get_or_create_field_tables(4) [OF append(1)])
    ultimately have "fact_key ?f \<in> fact_key ` set (facts (db s2))"
      using gs(1) by (metis imageI)
    with insert_fact_Inr(1) [OF append(4)] show ?thesis by simp
  qed
  then show ?thesis ..
qed

lemma ingest_loop_later_duplicate_fails:
  assumes "ts \<in> ts_ms ` set (pair_facts L (db s) r n)" and "n \<in> field_name ` set items"
  shows "\<exists>e. ingest_loop L r ts ObservationDriven items s = Inl e"
  using assms
proof (induction items arbitrary: s)
  case Nil
  then show ?case by simp
next
  case (Cons b bs)
  show ?case
  proof (cases "ingest_item L r ts ObservationDriven b s")
    case (Inl e)
    then show ?thesis by simp
  next
    case (Inr s2)
    have nb: "field_name b \<noteq> n"
    proof
      assume "field_name b = n"
      with Cons.prems(1) ingest_item_duplicate_fails [of ts L s r b] Inr show False by simp
    qed
    with Cons.prems(2) have "n \<in> field_name ` set bs" by auto
    moreover from ingest_item_pair_facts_mono [OF Inr, of r n] Cons.prems(1)
    have "ts \<in> ts_ms ` set (pair_facts L (db s2) r n)" by blast
    ultimately have "\<exists>e. ingest_loop L r ts ObservationDriven bs s2 = Inl e"
      by (intro Cons.IH)
    with Inr show ?thesis by simp
  qed
qed

lemma ingest_loop_duplicate_fails:
  assumes "\<not> distinct (map field_name items)"
  shows "\<exists>e. ingest_loop L r ts ObservationDriven items s = Inl e"
  using assms
proof (induction items arbitrary: s)
  case Nil
  then show ?case by simp
next
  case (Cons a as)
  show ?case
  proof (cases "ingest_item L r ts ObservationDriven a s")
    case (Inl e)
    then show ?thesis by simp
  next
    case (Inr s1)
    show ?thesis
    proof (cases "field_name a \<in> field_name ` set as")
      case True
      from ingest_loop_later_duplicate_fails [OF ingest_item_observe_adds [OF Inr] True]
      show ?thesis using Inr by simp
    next
      case False
      with Cons.prems have "\<not> distinct (map field_name as)" by simp
      from Cons.IH [OF this, of s1] show ?thesis using Inr by simp
    qed
  qed
qed

lemma ingest_items_duplicate_fails:
  assumes "\<not> distinct (map field_name items)"
  shows "\<exists>e. ingest_items L s r ts ObservationDriven items = (Inl e, s)"
proof (cases "length items > 256")
  case True
  then show ?thesis by (simp add: ingest_items_def with_tx_def)
next
  case False
  from ingest_loop_duplicate_fails [OF assms, of L r ts "ensure_record s r ts"] obtain e where
    "ingest_loop L r ts ObservationDriven items (ensure_record s r ts) = Inl e" by blast
  with False show ?thesis by (simp add: ingest_items_def with_tx_def)
qed

lemma ingest_items_single:
  assumes "ingest_items L s r t mode [it] = (Inr (), s1)"
  shows "ingest_item L r t mode it (ensure_record s r t) = Inr s1"
  using assms
  by (auto simp: ingest_items_def with_tx_def Let_def split: sum.splits)

lemma first_ingest_of_pair:
  assumes w: "wf_db (db s)" and e: "pair_facts L (db s) r (field_name it) = []"
    and ok: "ingest_items L s r t mode [it] = (Inr (), s1)"
  obtains fid vid where
    "get_or_create_field L s1 (field_name it) = Inr (fid, s1)"
    "get_or_create_value L s1 (item_value it) = Inr (vid, s1)"
    "field_id_of L (db s1) (field_name it) = Some fid"
    "filter (same_pair r fid) (facts (db s1)) =
       [\<lparr>record_id = r, field_id = fid, value_id = vid, ts_ms = t\<rparr>]"
    "filter (same_pair r fid) (current_facts (db s1)) =
       [\<lparr>record_id = r, field_id = fid, value_id = vid, ts_ms = t\<rparr>]"
    "fk_ok (db s1) \<lparr>record_id = r, field_id = fid, value_id = vid, ts_ms = t\<rparr>"
proof -
  let ?s0 = "ensure_record s r t"
  note item = ingest_items_single [OF ok]
  from w have v: "view_ok (facts (db s)) (current_facts (db s))" by (simp add: wf_db_def)
  then have sub: "set (current_facts (db s)) \<subseteq> set (facts (db s))" by (simp add: view_ok_iff)
  have none: "get_current sb r fid = None"
    if gf: "get_or_create_field L ?s0 (field_name it) = Inr (fid, sa)"
      and gv: "get_or_create_value L sa (item_value it) = Inr (vid, sb)" for fid sa vid sb
  proof -
    have "filter (same_pair r fid) (facts (db s)) = []"
      by (rule fresh_pair_no_facts [OF w e gf]) simp
    then have "\<forall>g\<in>set (facts (db s)). \<not> same_pair r fid g"
      by (simp add: filter_empty_conv)
    with sub have "\<forall>g\<in>set (current_facts (db s)). \<not> same_pair r fid g" by blast
    then have "find (same_pair r fid) (current_facts (db s)) = None"
      by (simp add: find_None_iff)
    moreover have "current_facts (db sb) = current_facts (db s)"
      using get_or_create_field_tables(5) [OF gf] get_or_create_value_tables(5) [OF gv] by simp
    ultimately show ?thesis by (simp add: get_current_def)
  qed
  from item show thesis
  proof (cases rule: ingest_item_cases)
    case (skip fid sa vid)
    from none [OF skip(1,2)] skip(4) show ?thesis by simp
  next
    case (append fid sa vid sb sc)
    let ?f = "\<lparr>record_id = r, field_id = fid, value_id = vid, ts_ms = t\<rparr>"
    note gf = append(1) and gv = append(2)
    have nf: "filter (same_pair r fid) (facts (db s)) = []"
      by (rule fresh_pair_no_facts [OF w e gf]) simp
    have fsb: "facts (db sb) = facts (db s)"
      using get_or_create_field_tables(4) [OF gf] get_or_create_value_tables(4) [OF gv] by simp
    have csb: "current_facts (db sb) = current_facts (db s)"
      using get_or_create_field_tables(5) [OF gf] get_or_create_value_tables(5) [OF gv] by simp
    from nf have "\<forall>g\<in>set (facts (db s)). \<not> same_pair r fid g"
      by (simp add: filter_empty_conv)
    with sub have nc': "\<forall>g\<in>set (current_facts (db s)). \<not> same_pair r fid g" by blast
    then have nc: "filter (same_pair r fid) (current_facts (db s)) = []"
      by (simp add: filter_empty_conv)
    from nc' have fnone: "find (same_pair r fid) (current_facts (db s)) = None"
      by (simp add: find_None_iff)
    note sc = insert_fact_Inr(3) [OF append(4)]
    note fk = insert_fact_Inr(2) [OF append(4)]
    have csc: "current_facts (db sc) = current_facts (db s)" by (simp add: sc csb)
    from append(5) fnone have s1: "s1 = sc\<lparr>db := (db sc)\<lparr>current_facts := current_facts (db sc) @ [?f]\<rparr>\<rparr>"
      by (auto simp: upsert_current_if_newer_def csc split: if_splits)
    have tabs: "fields_tab (db s1) = fields_tab (db sb)" "f_values (db s1) = f_values (db sb)"
      "records (db s1) = records (db sb)" "tagmap s1 = tagmap sb" "hashfmt s1 = hashfmt sb"
      by (simp_all add: s1 sc)
    have 1: "get_or_create_field L s1 (field_name it) = Inr (fid, s1)"
      by (rule get_or_create_field_again [OF gf])
         (simp add: tabs get_or_create_value_tables(2) [OF gv])
    have 2: "get_or_create_value L s1 (item_value it) = Inr (vid, s1)"
      by (rule get_or_create_value_again [OF gv])
         (simp_all add: tabs get_or_create_value_tables(6,7) [OF gv])
    note 3 = get_or_create_field_result(2) [OF 1]
    have 4: "filter (same_pair r fid) (facts (db s1)) = [?f]"
      by (simp add: s1 sc fsb nf same_pair_def)
    have 5: "filter (same_pair r fid) (current_facts (db s1)) = [?f]"
      by (simp add: s1 csc nc same_pair_def)
    from fk have 6: "fk_ok (db s1) ?f"
      by (simp add: fk_ok_def tabs)
    from 1 2 3 4 5 6 show ?thesis by (rule that)
  qed
qed

lemma second_ingest_event:
  assumes gf: "get_or_create_field L s1 (field_name it) = Inr (fid, s1)"
    and gv: "get_or_create_value L s1 (item_value it) = Inr (vid, s1)"
    and cur: "filter (same_pair r fid) (current_facts (db s1)) =
       [\<lparr>record_id = r, field_id = fid, value_id = vid, ts_ms = t1\<rparr>]"
    and fk: "fk_ok (db s1) \<lparr>record_id = r, field_id = fid, value_id = vid, ts_ms = t1\<rparr>"
  shows "ingest_items L s1 r t2 EventDriven [it] = (Inr (), s1)"
proof -
  from fk have "r \<in> fst ` set (records (db s1))" by (simp add: fk_ok_def)
  then have er: "ensure_record s1 r t2 = s1" by (simp add: ensure_record_def)
  from find_filter_single [OF cur] have "get_current s1 r fid = Some (vid, t1)"
    by (simp add: get_current_def)
  then have "ingest_item L r t2 EventDriven it s1 = Inr s1"
    by (simp add: ingest_item_def gf gv)
  then show ?thesis
    by (simp add: ingest_items_def with_tx_def er)
qed

lemma second_ingest_observe:
  assumes gf: "get_or_create_field L s1 (field_name it) = Inr (fid, s1)"
    and gv: "get_or_create_value L s1 (item_value it) = Inr (vid, s1)"
    and fs: "filter (same_pair r fid) (facts (db s1)) =
       [\<lparr>record_id = r, field_id = fid, value_id = vid, ts_ms = t1\<rparr>]"
    and cur: "filter (same_pair r fid) (current_facts (db s1)) =
       [\<lparr>record_id = r, field_id = fid, value_id = vid, ts_ms = t1\<rparr>]"
    and fk: "fk_ok (db s1) \<lparr>record_id = r, field_id = fid, value_id = vid, ts_ms = t1\<rparr>"
    and lt: "t1 < t2"
  shows "\<exists>s2. ingest_items L s1 r t2 ObservationDriven [it] = (Inr (), s2) \<and>
           fields_tab (db s2) = fields_tab (db s1) \<and>
           facts (db s2) =
             facts (db s1) @ [\<lparr>record_id = r, field_id = fid, value_id = vid, ts_ms = t2\<rparr>]"
proof -
  let ?f1 = "\<lparr>record_id = r, field_id = fid, value_id = vid, ts_ms = t1\<rparr>"
  let ?f2 = "\<lparr>record_id = r, field_id = fid, value_id = vid, ts_ms = t2\<rparr>"
  from fk have "r \<in> fst ` set (records (db s1))" by (simp add: fk_ok_def)
  then have er: "ensure_record s1 r t2 = s1" by (simp add: ensure_record_def)
  from fk have fk2: "fk_ok (db s1) ?f2" by (simp add: fk_ok_def)
  have "g \<in> set (filter (same_pair r fid) (facts (db s1)))"
    if "g \<in> set (facts (db s1))" "same_pair r fid g" for g
    using that by simp
  then have "ts_ms g = t1" if "g \<in> set (facts (db s1))" "same_pair r fid g" for g
    using that unfolding fs by fastforce
  with lt have nd: "\<not> (\<exists>g \<in> set (facts (db s1)). same_pair r fid g \<and> ts_ms g = t2)"
    by fastforce
  let ?s3 = "s1\<lparr>db := (db s1)\<lparr>facts := facts (db s1) @ [?f2]\<rparr>\<rparr>"
  from nd fk2 have ins: "insert_fact s1 ?f2 = Inr ?s3"
    by (simp add: insert_fact_def)
  let ?s4 = "?s3\<lparr>db := (db ?s3)\<lparr>current_facts :=
                map (\<lambda>c. if same_pair r fid c then c\<lparr>value_id := vid, ts_ms := t2\<rparr> else c)
                    (current_facts (db ?s3))\<rparr>\<rparr>"
  from find_filter_single [OF cur]
  have f3: "find (same_pair r fid) (current_facts (db ?s3)) = Some ?f1" by simp
  from fk2 have fk3: "fk_ok (db ?s3) ?f2" by (simp add: fk_ok_def)
  from f3 fk3 lt have ups: "upsert_current_if_newer ?s3 ?f2 = Inr ?s4"
    by (simp add: upsert_current_if_newer_def)
  have "ingest_item L r t2 ObservationDriven it s1 = Inr ?s4"
    by (simp add: ingest_item_def gf gv ins ups Let_def)
  then have "ingest_items L s1 r t2 ObservationDriven [it] = (Inr (), ?s4)"
    by (simp add: ingest_items_def with_tx_def er)
  moreover have "fields_tab (db ?s4) = fields_tab (db s1)" by simp
  moreover have "facts (db ?s4) = facts (db s1) @ [?f2]" by simp
  ultimately show ?thesis by blast
qed


lemma pair_current_of_fid:
  assumes w: "wf_db (db s)" and g: "get_or_create_field L s0 n = Inr (fid, s1)"
    and same: "fields_tab (db s0) = fields_tab (db s)"
  shows "filter (same_pair r fid) (current_facts (db s)) = pair_current L (db s) r n"
proof (cases "field_id_of L (db s) n")
  case None
  then have "pair_facts L (db s) r n = []" by (simp add: pair_facts_def)
  from fresh_pair_no_facts [OF w this g same]
  have "\<forall>g\<in>set (facts (db s)). \<not> same_pair r fid g" by (simp add: filter_empty_conv)
  moreover from w have "set (current_facts (db s)) \<subseteq> set (facts (db s))"
    by (simp add: wf_db_def view_ok_iff)
  ultimately have "\<forall>g\<in>set (current_facts (db s)). \<not> same_pair r fid g" by blast
  then have "filter (same_pair r fid) (current_facts (db s)) = []"
    by (simp add: filter_empty_conv)
  with None show ?thesis by (simp add: pair_current_def)
next
  case (Some fid0)
  from field_id_of_cong [OF same, of L n] Some have "field_id_of L (db s0) n = Some fid0" by simp
  from field_id_of_stable [OF this g] get_or_create_field_result(2) [OF g] have "fid = fid0" by simp
  with Some show ?thesis by (simp add: pair_current_def)
qed

lemma event_item_twice:
  assumes w: "wf_db (db s)"
    and le: "\<forall>c\<in>set (pair_current L (db s) r (field_name it)). ts_ms c \<le> ts"
    and same: "fields_tab (db s0) = fields_tab (db s)" "current_facts (db s0) = current_facts (db s)"
    and i: "ingest_item L r ts EventDriven it s0 = Inr s1"
  shows "ingest_item L r ts EventDriven it s1 = Inr s1"
proof -
  have skip_again: "ingest_item L r ts EventDriven it s1 = Inr s1"
    if gf: "get_or_create_field L s0 (field_name it) = Inr (fid, sa)"
      and gv: "get_or_create_value L sa (item_value it) = Inr (vid, sb)"
      and ft: "fields_tab (db s1) = fields_tab (db sa)"
      and vt: "f_values (db s1) = f_values (db sb)"
      and tm: "tagmap s1 = tagmap sa" and hf: "hashfmt s1 = hashfmt sa"
      and cur: "get_current s1 r fid = Some (vid, t)" for fid sa vid sb t
  proof -
    from get_or_create_field_again [OF gf ft]
    have "get_or_create_field L s1 (field_name it) = Inr (fid, s1)" .
    moreover from get_or_create_value_again [OF gv vt tm hf]
    have "get_or_create_value L s1 (item_value it) = Inr (vid, s1)" .
    ultimately show ?thesis using cur by (simp add: ingest_item_def)
  qed
  from i show ?thesis
  proof (cases rule: ingest_item_cases)
    case (skip fid sa vid)
    from skip(4) obtain t where c: "get_current s1 r fid = Some (vid, t)" by blast
    show ?thesis
      by (rule skip_again [OF skip(1,2) _ _ _ _ c])
         (simp_all add: get_or_create_value_tables(2,6,7) [OF skip(2)])
  next
    case (append fid sa vid sb sc)
    let ?f = "\<lparr>record_id = r, field_id = fid, value_id = vid, ts_ms = ts\<rparr>"
    let ?u = "\<lambda>c. if pair_key c = pair_key ?f then c\<lparr>value_id := value_id ?f, ts_ms := ts_ms ?f\<rparr> else c"
    note t = ingest_item_append_tables [OF append(1,2,4,5)]
    have U: "\<exists>cur. s1 = sc\<lparr>db := (db sc)\<lparr>current_facts := cur\<rparr>\<rparr> \<and>
       ((find (same_pair r fid) (current_facts (db sc)) = None \<and> cur = current_facts (db sc) @ [?f]) \<or>
        (\<exists>c. find (same_pair r fid) (current_facts (db sc)) = Some c \<and> ts_ms c \<le> ts \<and>
             cur = map ?u (current_facts (db sc))) \<or>
        (\<exists>c. find (same_pair r fid) (current_facts (db sc)) = Some c \<and> ts < ts_ms c \<and>
             cur = current_facts (db sc)))"
      using upsert_Inr [OF append(5)] by simp
    then obtain cur where s1: "s1 = sc\<lparr>db := (db sc)\<lparr>current_facts := cur\<rparr>\<rparr>" and
      D: "(find (same_pair r fid) (current_facts (db sc)) = None \<and> cur = current_facts (db sc) @ [?f]) \<or>
        (\<exists>c. find (same_pair r fid) (current_facts (db sc)) = Some c \<and> ts_ms c \<le> ts \<and>
             cur = map ?u (current_facts (db sc))) \<or>
        (\<exists>c. find (same_pair r fid) (current_facts (db sc)) = Some c \<and> ts < ts_ms c \<and>
             cur = current_facts (db sc))"
      by blast
    have cs1: "current_facts (db s1) = cur" by (simp add: s1)
    from D have "find (same_pair r fid) cur = Some ?f"
    proof (elim disjE exE conjE)
      assume n: "find (same_pair r fid) (current_facts (db sc)) = None"
        and c: "cur = current_facts (db sc) @ [?f]"
      from find_append_None [OF n, of "[?f]"] show ?thesis
        by (simp add: c same_pair_def)
    next
      fix c
      assume f: "find (same_pair r fid) (current_facts (db sc)) = Some c"
        and c: "cur = map ?u (current_facts (db sc))"
      have "find (same_pair r fid) (map ?u (current_facts (db sc))) = Some (?u c)"
        by (rule find_map_update [OF f]) (simp add: same_pair_def)
      moreover from f have "same_pair r fid c" by (auto simp: find_Some_iff)
      then have "record_id c = r" "field_id c = fid" by (simp_all add: same_pair_def)
      then have "?u c = ?f" by (simp add: pair_key_def)
      ultimately show ?thesis by (simp only: c)
    next
      fix c
      assume f: "find (same_pair r fid) (current_facts (db sc)) = Some c" and lt: "ts < ts_ms c"
      from f have "c \<in> set (current_facts (db sc))" "same_pair r fid c"
        by (auto simp: find_Some_iff)
      then have "c \<in> set (filter (same_pair r fid) (current_facts (db s)))"
        by (simp add: t(6) same(2))
      then have "c \<in> set (pair_current L (db s) r (field_name it))"
        by (simp only: pair_current_of_fid [OF w append(1) same(1)])
      with le have "ts_ms c \<le> ts" by blast
      with lt show ?thesis by simp
    qed
    then have c: "get_current s1 r fid = Some (vid, ts)"
      by (simp add: get_current_def cs1)
    show ?thesis
      by (rule skip_again [OF append(1,2) t(1,3,4,5) c])
  qed
qed

lemma event_items_twice:
  assumes w: "wf_db (db s)"
    and le: "\<forall>c\<in>set (pair_current L (db s) r (field_name it)). ts_ms c \<le> ts"
  shows "ingest_items L s r ts EventDriven [it, it] = ingest_items L s r ts EventDriven [it]"
proof (cases "ingest_item L r ts EventDriven it (ensure_record s r ts)")
  case (Inl e)
  then show ?thesis by (simp add: ingest_items_def with_tx_def)
next
  case (Inr s1)
  have "ingest_item L r ts EventDriven it s1 = Inr s1"
    by (rule event_item_twice [OF w le _ _ Inr]) simp_all
  with Inr show ?thesis by (simp add: ingest_items_def with_tx_def)
qed

lemma pair_facts_empty_current:
  assumes w: "wf_db (db s)" and e: "pair_facts L (db s) r n = []"
  shows "pair_current L (db s) r n = []"
proof (cases "field_id_of L (db s) n")
  case None
  then show ?thesis by (simp add: pair_current_def)
next
  case (Some fid)
  with e have "\<forall>g\<in>set (facts (db s)). \<not> same_pair r fid g"
    by (simp add: pair_facts_def filter_empty_conv)
  moreover from w have "set (current_facts (db s)) \<subseteq> set (facts (db s))"
    by (simp add: wf_db_def view_ok_iff)
  ultimately have "\<forall>g\<in>set (current_facts (db s)). \<not> same_pair r fid g" by blast
  with Some show ?thesis by (simp add: pair_current_def filter_empty_conv)
qed

section \<open>What one item does\<close>

lemma pair_rows_single:
  assumes "distinct (map pair_key cs)"
  shows "filter (same_pair r f) cs = (case find (same_pair r f) cs of None \<Rightarrow> [] | Some c \<Rightarrow> [c])"
proof (cases "find (same_pair r f) cs")
  case None
  then have "\<forall>c\<in>set cs. \<not> same_pair r f c" by (simp add: find_None_iff)
  then have "filter (same_pair r f) cs = []" by (simp add: filter_empty_conv)
  with None show ?thesis by simp
next
  case (Some c)
  then have c: "c \<in> set cs" "same_pair r f c" by (auto simp: find_Some_iff)
  then have k: "pair_key c = (r, f)" by (simp add: same_pair_key)
  have "filter (same_pair r f) cs = filter (\<lambda>y. pair_key y = pair_key c) cs"
    by (rule filter_cong) (simp_all add: same_pair_key k)
  also have "\<dots> = [c]" by (rule distinct_map_filter_single [OF assms c(1)])
  finally show ?thesis using Some by simp
qed

lemma pair_facts_of_fid:
  assumes w: "wf_db (db s)" and g: "get_or_create_field L s n = Inr (fid, s1)"
  shows "filter (same_pair r fid) (facts (db s)) = pair_facts L (db s) r n"
proof (cases "field_id_of L (db s) n")
  case None
  then have e: "pair_facts L (db s) r n = []" by (simp add: pair_facts_def)
  from fresh_pair_no_facts [OF w e g refl] e show ?thesis by simp
next
  case (Some fid0)
  from field_id_of_stable [OF Some g] get_or_create_field_result(2) [OF g] have "fid = fid0" by simp
  with Some show ?thesis by (simp add: pair_facts_def)
qed

lemma pair_rows_ensure_record [simp]:
  "pair_facts L (db (ensure_record s r' t)) r n = pair_facts L (db s) r n"
  "pair_current L (db (ensure_record s r' t)) r n = pair_current L (db s) r n"
proof -
  have "field_id_of L (db (ensure_record s r' t)) n = field_id_of L (db s) n"
    by (rule field_id_of_cong) simp
  then show "pair_facts L (db (ensure_record s r' t)) r n = pair_facts L (db s) r n"
    "pair_current L (db (ensure_record s r' t)) r n = pair_current L (db s) r n"
    by (cases "field_id_of L (db s) n"; simp add: pair_facts_def pair_current_def)+
qed

lemma ensure_record_again:
  "r \<in> fst ` set (records (db s)) \<Longrightarrow> ensure_record s r t = s"
  by (simp add: ensure_record_def)

lemma upsert_tables:
  assumes "upsert_current_if_newer s f = Inr s'"
  shows "facts (db s') = facts (db s)" "records (db s') = records (db s)"
    "fields_tab (db s') = fields_tab (db s)" "f_values (db s') = f_values (db s)"
    "meta (db s') = meta (db s)" "tagmap s' = tagmap s" "hashfmt s' = hashfmt s"
proof -
  from upsert_Inr [OF assms] obtain cur where "s' = s\<lparr>db := (db s)\<lparr>current_facts := cur\<rparr>\<rparr>"
    by blast
  then show "facts (db s') = facts (db s)" "records (db s') = records (db s)"
    "fields_tab (db s') = fields_tab (db s)" "f_values (db s') = f_values (db s)"
    "meta (db s') = meta (db s)" "tagmap s' = tagmap s" "hashfmt s' = hashfmt s"
    by simp_all
qed

lemma upsert_total:
  "fk_ok (db s) f \<Longrightarrow> \<exists>s'. upsert_current_if_newer s f = Inr s'"
  by (simp add: upsert_current_if_newer_def split: option.splits)

text \<open>The row of the pair after the upsert, by the age of the row before it.\<close>

lemma upsert_outcome:
  assumes d: "distinct (map pair_key cs)" and cs: "current_facts (db s) = cs"
    and u: "upsert_current_if_newer s f = Inr s'"
  shows "(\<forall>c\<in>set (filter (\<lambda>c. pair_key c = pair_key f) cs). ts_ms c \<le> ts_ms f) \<Longrightarrow>
           filter (\<lambda>c. pair_key c = pair_key f) (current_facts (db s')) = [f]"
    and "(\<exists>c\<in>set (filter (\<lambda>c. pair_key c = pair_key f) cs). ts_ms f < ts_ms c) \<Longrightarrow>
           current_facts (db s') = cs"
proof -
  let ?P = "\<lambda>c. pair_key c = pair_key f"
  let ?u = "\<lambda>c. if pair_key c = pair_key f then c\<lparr>value_id := value_id f, ts_ms := ts_ms f\<rparr> else c"
  have same: "same_pair (record_id f) (field_id f) = ?P"
    by (rule ext) (simp add: same_pair_key')
  from pair_rows_single [OF d, of "record_id f" "field_id f"]
  have rows: "filter ?P cs = (case find ?P cs of None \<Rightarrow> [] | Some c \<Rightarrow> [c])"
    by (simp only: same)
  from upsert_Inr [OF u] obtain cur where s': "s' = s\<lparr>db := (db s)\<lparr>current_facts := cur\<rparr>\<rparr>" and
    D: "(find ?P cs = None \<and> cur = cs @ [f]) \<or>
        (\<exists>c. find ?P cs = Some c \<and> ts_ms c \<le> ts_ms f \<and> cur = map ?u cs) \<or>
        (\<exists>c. find ?P cs = Some c \<and> ts_ms f < ts_ms c \<and> cur = cs)"
    unfolding same cs by blast
  have c': "current_facts (db s') = cur" by (simp add: s')
  have upd: "filter ?P (map ?u cs) = [f]" if f: "find ?P cs = Some c" for c
  proof -
    from f have pc: "pair_key c = pair_key f" by (auto simp: find_Some_iff)
    have "filter ?P (map ?u cs) = map ?u (filter (?P \<circ> ?u) cs)" by (rule filter_map)
    also have "?P \<circ> ?u = ?P" by (rule ext) (simp add: pair_key_def)
    also have "filter ?P cs = [c]" by (simp add: rows f)
    also have "map ?u [c] = [c\<lparr>value_id := value_id f, ts_ms := ts_ms f\<rparr>]" by (simp add: pc)
    also from pc have "c\<lparr>value_id := value_id f, ts_ms := ts_ms f\<rparr> = f"
      by (simp add: pair_key_def)
    finally show ?thesis .
  qed
  {
    assume a: "\<forall>c\<in>set (filter ?P cs). ts_ms c \<le> ts_ms f"
    from D show "filter ?P (current_facts (db s')) = [f]"
    proof (elim disjE exE conjE)
      assume n: "find ?P cs = None" and c: "cur = cs @ [f]"
      from n rows have "filter ?P cs = []" by simp
      then show ?thesis by (simp add: c' c)
    next
      fix c
      assume "find ?P cs = Some c" and "cur = map ?u cs"
      with upd show ?thesis by (simp only: c')
    next
      fix c
      assume f: "find ?P cs = Some c" and lt: "ts_ms f < ts_ms c"
      from f rows have "c \<in> set (filter ?P cs)" by simp
      with a lt show ?thesis by fastforce
    qed
  }
  {
    assume "\<exists>c\<in>set (filter ?P cs). ts_ms f < ts_ms c"
    then obtain c0 where c0: "c0 \<in> set (filter ?P cs)" "ts_ms f < ts_ms c0" by blast
    from D show "current_facts (db s') = cs"
    proof (elim disjE exE conjE)
      assume "find ?P cs = None"
      with rows c0(1) show ?thesis by simp
    next
      fix c
      assume f: "find ?P cs = Some c" and le: "ts_ms c \<le> ts_ms f"
      from f rows c0(1) have "c0 = c" by simp
      with le c0(2) show ?thesis by simp
    next
      fix c
      assume "cur = cs"
      then show ?thesis by (simp add: c')
    qed
  }
qed

lemma ingest_item_outcome:
  assumes w: "wf_db (db s0)" and i: "ingest_item L r ts mode it s0 = Inr s1"
  obtains (skipped) fid vid t where
      "mode = EventDriven"
      "facts (db s1) = facts (db s0)" "current_facts (db s1) = current_facts (db s0)"
      "records (db s1) = records (db s0)"
      "get_or_create_field L s1 (field_name it) = Inr (fid, s1)"
      "get_or_create_value L s1 (item_value it) = Inr (vid, s1)"
      "get_current s1 r fid = Some (vid, t)"
      "vid \<in> value_id ` set (pair_current L (db s0) r (field_name it))"
  | (appended) fid vid where
      "facts (db s1) = facts (db s0) @ [\<lparr>record_id = r, field_id = fid, value_id = vid, ts_ms = ts\<rparr>]"
      "records (db s1) = records (db s0)"
      "get_or_create_field L s1 (field_name it) = Inr (fid, s1)"
      "get_or_create_value L s1 (item_value it) = Inr (vid, s1)"
      "filter (same_pair r fid) (facts (db s0)) = pair_facts L (db s0) r (field_name it)"
      "filter (same_pair r fid) (current_facts (db s0)) = pair_current L (db s0) r (field_name it)"
      "fk_ok (db s1) \<lparr>record_id = r, field_id = fid, value_id = vid, ts_ms = ts\<rparr>"
      "ts \<notin> ts_ms ` set (pair_facts L (db s0) r (field_name it))"
      "mode = EventDriven \<Longrightarrow> vid \<notin> value_id ` set (pair_current L (db s0) r (field_name it))"
      "(\<forall>c\<in>set (pair_current L (db s0) r (field_name it)). ts_ms c \<le> ts) \<Longrightarrow>
         filter (same_pair r fid) (current_facts (db s1)) =
           [\<lparr>record_id = r, field_id = fid, value_id = vid, ts_ms = ts\<rparr>]"
      "(\<exists>c\<in>set (pair_current L (db s0) r (field_name it)). ts < ts_ms c) \<Longrightarrow>
         current_facts (db s1) = current_facts (db s0)"
proof -
  from w have dc: "distinct (map pair_key (current_facts (db s0)))"
    by (simp add: wf_db_def view_ok_iff)
  from i show thesis
  proof (cases rule: ingest_item_cases)
    case (skip fid sa vid)
    note gf = skip(1) and gv = skip(2)
    from skip(4) obtain t where c: "get_current s1 r fid = Some (vid, t)" by blast
    have cs: "current_facts (db s1) = current_facts (db s0)"
      by (simp add: get_or_create_value_tables(5) [OF gv] get_or_create_field_tables(5) [OF gf])
    have 1: "facts (db s1) = facts (db s0)"
      by (simp add: get_or_create_value_tables(4) [OF gv] get_or_create_field_tables(4) [OF gf])
    have 2: "records (db s1) = records (db s0)"
      by (simp add: get_or_create_value_tables(3) [OF gv] get_or_create_field_tables(3) [OF gf])
    have 3: "get_or_create_field L s1 (field_name it) = Inr (fid, s1)"
      by (rule get_or_create_field_again [OF gf]) (simp add: get_or_create_value_tables(2) [OF gv])
    have 4: "get_or_create_value L s1 (item_value it) = Inr (vid, s1)"
      by (rule get_or_create_value_again [OF gv])
         (simp_all add: get_or_create_value_tables(6,7) [OF gv])
    from c obtain c0 where "find (same_pair r fid) (current_facts (db s0)) = Some c0" "value_id c0 = vid"
      by (auto simp: get_current_def cs split: option.splits)
    then have "c0 \<in> set (filter (same_pair r fid) (current_facts (db s0)))" "value_id c0 = vid"
      by (auto simp: find_Some_iff)
    then have "vid \<in> value_id ` set (filter (same_pair r fid) (current_facts (db s0)))"
      by (metis imageI)
    then have 5: "vid \<in> value_id ` set (pair_current L (db s0) r (field_name it))"
      by (simp only: pair_current_of_fid [OF w gf refl])
    from skip(3) 1 cs 2 3 4 c 5 show ?thesis by (rule skipped)
  next
    case (append fid sa vid sb sc)
    let ?f = "\<lparr>record_id = r, field_id = fid, value_id = vid, ts_ms = ts\<rparr>"
    note gf = append(1) and gv = append(2)
    note t = ingest_item_append_tables [OF append(1,2,4,5)]
    note sc = insert_fact_Inr(3) [OF append(4)]
    note pf = pair_facts_of_fid [OF w gf, of r]
    note pc = pair_current_of_fid [OF w gf refl, of r]
    have same: "same_pair r fid = (\<lambda>c. pair_key c = pair_key ?f)"
      by (rule ext) (simp add: same_pair_key pair_key_def)
    have rsb: "records (db sb) = records (db s0)"
      by (simp add: get_or_create_value_tables(3) [OF gv] get_or_create_field_tables(3) [OF gf])
    have fsb: "facts (db sb) = facts (db s0)"
      by (simp add: get_or_create_value_tables(4) [OF gv] get_or_create_field_tables(4) [OF gf])
    have csb: "current_facts (db sb) = current_facts (db s0)"
      by (simp add: get_or_create_value_tables(5) [OF gv] get_or_create_field_tables(5) [OF gf])
    have 2: "records (db s1) = records (db s0)"
      by (simp add: upsert_tables(2) [OF append(5)] sc rsb)
    have 3: "get_or_create_field L s1 (field_name it) = Inr (fid, s1)"
      by (rule get_or_create_field_again [OF gf t(1)])
    have 4: "get_or_create_value L s1 (item_value it) = Inr (vid, s1)"
      by (rule get_or_create_value_again [OF gv t(3,4,5)])
    from insert_fact_Inr(2) [OF append(4)] have 7: "fk_ok (db s1) ?f"
      by (simp add: fk_ok_def 2 rsb t(1,3) get_or_create_value_tables(2) [OF gv])
    have 8: "ts \<notin> ts_ms ` set (pair_facts L (db s0) r (field_name it))"
    proof
      assume "ts \<in> ts_ms ` set (pair_facts L (db s0) r (field_name it))"
      then obtain g where "g \<in> set (filter (same_pair r fid) (facts (db s0)))" "ts_ms g = ts"
        unfolding pf [symmetric] by blast
      then have "g \<in> set (facts (db sb))" "fact_key g = fact_key ?f"
        by (simp_all add: fsb fact_key_def same_pair_def)
      then have "fact_key ?f \<in> fact_key ` set (facts (db sb))" by (metis imageI)
      with insert_fact_Inr(1) [OF append(4)] show False by simp
    qed
    have 9: "vid \<notin> value_id ` set (pair_current L (db s0) r (field_name it))" if "mode = EventDriven"
    proof
      assume "vid \<in> value_id ` set (pair_current L (db s0) r (field_name it))"
      then obtain c where c: "c \<in> set (filter (same_pair r fid) (current_facts (db s0)))"
        "value_id c = vid"
        unfolding pc [symmetric] by blast
      with pair_rows_single [OF dc, of r fid]
      have "find (same_pair r fid) (current_facts (db s0)) = Some c"
        by (cases "find (same_pair r fid) (current_facts (db s0))") simp_all
      with c(2) have "get_current sb r fid = Some (vid, ts_ms c)"
        by (simp add: get_current_def csb)
      with append(3) that show False by simp
    qed
    have csc: "current_facts (db sc) = current_facts (db s0)" by (simp add: sc csb)
    note uo = upsert_outcome [OF dc csc append(5)]
    have 10: "filter (same_pair r fid) (current_facts (db s1)) = [?f]"
      if a: "\<forall>c\<in>set (pair_current L (db s0) r (field_name it)). ts_ms c \<le> ts"
    proof -
      from a have "\<forall>c\<in>set (filter (\<lambda>c. pair_key c = pair_key ?f) (current_facts (db s0))).
          ts_ms c \<le> ts_ms ?f"
        unfolding pc [symmetric] same by simp
      from uo(1) [OF this] show ?thesis unfolding same .
    qed
    have 11: "current_facts (db s1) = current_facts (db s0)"
      if a: "\<exists>c\<in>set (pair_current L (db s0) r (field_name it)). ts < ts_ms c"
    proof -
      from a have "\<exists>c\<in>set (filter (\<lambda>c. pair_key c = pair_key ?f) (current_facts (db s0))).
          ts_ms ?f < ts_ms c"
        unfolding pc [symmetric] same by simp
      from uo(2) [OF this] show ?thesis .
    qed
    from t(2) 2 3 4 pf pc 7 8 9 10 11 show ?thesis by (rule appended)
  qed
qed

lemma event_item_again:
  assumes "get_or_create_field L s1 (field_name it) = Inr (fid, s1)"
    and "get_or_create_value L s1 (item_value it) = Inr (vid, s1)"
    and "get_current s1 r fid = Some (vid, t)"
  shows "ingest_item L r t2 EventDriven it s1 = Inr s1"
  using assms by (simp add: ingest_item_def)

lemma single_item_call:
  "ingest_items L s r ts mode [it] =
     (case ingest_item L r ts mode it (ensure_record s r ts) of
        Inl e \<Rightarrow> (Inl e, s) | Inr s1 \<Rightarrow> (Inr (), s1))"
  by (simp add: ingest_items_def with_tx_def split: sum.splits)

lemma two_item_call:
  "ingest_items L s r ts mode [a, b] =
     (case ingest_item L r ts mode a (ensure_record s r ts) of
        Inl e \<Rightarrow> (Inl e, s)
      | Inr s1 \<Rightarrow> (case ingest_item L r ts mode b s1 of
                    Inl e \<Rightarrow> (Inl e, s) | Inr s2 \<Rightarrow> (Inr (), s2)))"
  by (simp add: ingest_items_def with_tx_def split: sum.splits)

lemma pair_rows_after:
  assumes "get_or_create_field L s1 n = Inr (fid, s1)"
  shows "pair_facts L (db s1) r n = filter (same_pair r fid) (facts (db s1))"
    and "pair_current L (db s1) r n = filter (same_pair r fid) (current_facts (db s1))"
  using get_or_create_field_result(2) [OF assms]
  by (simp_all add: pair_facts_def pair_current_def)
section \<open>Ingesting the same value twice in a row\<close>

text \<open>
  Claim C4 (amended). In EventDriven mode an item whose value is the value of the
  current row of its record and field is skipped: the ingest of the item returns the
  store as interning left it, with the log and the current view as before. In a
  consistent store where the current row of the record and field, if there is one, is
  not newer than \<open>t1\<close>, when an EventDriven ingest of an item at \<open>t1\<close> succeeds, a second
  EventDriven ingest of the same item, at any time, succeeds and changes nothing; the
  first ingest changed nothing either when the current row already held the value, and
  otherwise appended the one fact at \<open>t1\<close> and made it the current row of the pair. When
  the record has no fact under the field, the pair so has the one fact at \<open>t1\<close> and its
  current row is at \<open>t1\<close>. In ObservationDriven mode, when the first ingest at \<open>t1\<close>
  succeeds and the pair has no fact at \<open>t2 > t1\<close>, the second ingest at \<open>t2\<close> succeeds and
  the two calls have appended the two facts at \<open>t1\<close> and \<open>t2\<close>.
\<close>

theorem event_mode_suppression:
  "(get_or_create_field L s0 (field_name it) = Inr (fid, sa) \<longrightarrow>
    get_or_create_value L sa (item_value it) = Inr (vid, sb) \<longrightarrow>
    get_current sb r fid = Some (vid, t) \<longrightarrow>
      ingest_item L r t2 EventDriven it s0 = Inr sb \<and>
      facts (db sb) = facts (db s0) \<and> current_facts (db sb) = current_facts (db s0)) \<and>
   (wf_db (db s) \<longrightarrow>
    (\<forall>c\<in>set (pair_current L (db s) r (field_name it)). ts_ms c \<le> t1) \<longrightarrow>
    ingest_items L s r t1 EventDriven [it] = (Inr (), s1) \<longrightarrow>
      ingest_items L s1 r t2 EventDriven [it] = (Inr (), s1) \<and>
      (\<exists>fid vid.
         get_or_create_field L s1 (field_name it) = Inr (fid, s1) \<and>
         get_or_create_value L s1 (item_value it) = Inr (vid, s1) \<and>
         (if vid \<in> value_id ` set (pair_current L (db s) r (field_name it))
          then facts (db s1) = facts (db s) \<and> current_facts (db s1) = current_facts (db s)
          else facts (db s1) =
                 facts (db s) @ [\<lparr>record_id = r, field_id = fid, value_id = vid, ts_ms = t1\<rparr>] \<and>
               pair_facts L (db s1) r (field_name it) =
                 pair_facts L (db s) r (field_name it) @
                 [\<lparr>record_id = r, field_id = fid, value_id = vid, ts_ms = t1\<rparr>] \<and>
               pair_current L (db s1) r (field_name it) =
                 [\<lparr>record_id = r, field_id = fid, value_id = vid, ts_ms = t1\<rparr>]))) \<and>
   (wf_db (db s) \<longrightarrow> t1 < t2 \<longrightarrow>
    t2 \<notin> ts_ms ` set (pair_facts L (db s) r (field_name it)) \<longrightarrow>
    ingest_items L s r t1 ObservationDriven [it] = (Inr (), s1) \<longrightarrow>
      (\<exists>s2 fid vid.
         ingest_items L s1 r t2 ObservationDriven [it] = (Inr (), s2) \<and>
         facts (db s2) =
           facts (db s) @ [\<lparr>record_id = r, field_id = fid, value_id = vid, ts_ms = t1\<rparr>,
                           \<lparr>record_id = r, field_id = fid, value_id = vid, ts_ms = t2\<rparr>] \<and>
         pair_facts L (db s2) r (field_name it) =
           pair_facts L (db s) r (field_name it) @
             [\<lparr>record_id = r, field_id = fid, value_id = vid, ts_ms = t1\<rparr>,
              \<lparr>record_id = r, field_id = fid, value_id = vid, ts_ms = t2\<rparr>])) \<and>
   (wf_db (db s) \<longrightarrow> pair_facts L (db s) r (field_name it) = [] \<longrightarrow> t1 < t2 \<longrightarrow>
    ingest_items L s r t1 mode [it] = (Inr (), s1) \<longrightarrow>
      fst (ingest_items L s1 r t2 mode [it]) = Inr () \<and>
      map ts_ms (pair_facts L (db s1) r (field_name it)) = [t1] \<and>
      map ts_ms (pair_current L (db s1) r (field_name it)) = [t1] \<and>
      (mode = EventDriven \<longrightarrow> snd (ingest_items L s1 r t2 mode [it]) = s1) \<and>
      (mode = ObservationDriven \<longrightarrow>
         map ts_ms (pair_facts L (db (snd (ingest_items L s1 r t2 mode [it]))) r (field_name it)) =
           [t1, t2]))"
proof (intro conjI impI)
  assume gf: "get_or_create_field L s0 (field_name it) = Inr (fid, sa)"
    and gv: "get_or_create_value L sa (item_value it) = Inr (vid, sb)"
    and cur: "get_current sb r fid = Some (vid, t)"
  from gf gv cur show "ingest_item L r t2 EventDriven it s0 = Inr sb"
    by (simp add: ingest_item_def)
  show "facts (db sb) = facts (db s0)"
    using get_or_create_field_tables(4) [OF gf] get_or_create_value_tables(4) [OF gv] by simp
  show "current_facts (db sb) = current_facts (db s0)"
    using get_or_create_field_tables(5) [OF gf] get_or_create_value_tables(5) [OF gv] by simp
next
  assume w: "wf_db (db s)"
    and le: "\<forall>c\<in>set (pair_current L (db s) r (field_name it)). ts_ms c \<le> t1"
    and ok: "ingest_items L s r t1 EventDriven [it] = (Inr (), s1)"
  let ?s0 = "ensure_record s r t1"
  from ok have item: "ingest_item L r t1 EventDriven it ?s0 = Inr s1"
    by (rule ingest_items_single)
  from w have w0: "wf_db (db ?s0)" by (rule ensure_record_wf)
  have rec: "ensure_record s1 r t2 = s1" if "records (db s1) = records (db ?s0)"
    by (rule ensure_record_again) (simp add: that ensure_record_has)
  from w0 item
  have "ingest_items L s1 r t2 EventDriven [it] = (Inr (), s1) \<and>
      (\<exists>fid vid.
         get_or_create_field L s1 (field_name it) = Inr (fid, s1) \<and>
         get_or_create_value L s1 (item_value it) = Inr (vid, s1) \<and>
         (if vid \<in> value_id ` set (pair_current L (db s) r (field_name it))
          then facts (db s1) = facts (db s) \<and> current_facts (db s1) = current_facts (db s)
          else facts (db s1) =
                 facts (db s) @ [\<lparr>record_id = r, field_id = fid, value_id = vid, ts_ms = t1\<rparr>] \<and>
               pair_facts L (db s1) r (field_name it) =
                 pair_facts L (db s) r (field_name it) @
                 [\<lparr>record_id = r, field_id = fid, value_id = vid, ts_ms = t1\<rparr>] \<and>
               pair_current L (db s1) r (field_name it) =
                 [\<lparr>record_id = r, field_id = fid, value_id = vid, ts_ms = t1\<rparr>]))"
  proof (cases rule: ingest_item_outcome)
    case (skipped fid vid t)
    from event_item_again [OF skipped(5,6,7)]
    have "ingest_items L s1 r t2 EventDriven [it] = (Inr (), s1)"
      by (simp add: single_item_call rec [OF skipped(4)])
    moreover from skipped(8) have "vid \<in> value_id ` set (pair_current L (db s) r (field_name it))"
      by simp
    moreover from skipped(2,3) have "facts (db s1) = facts (db s)"
      "current_facts (db s1) = current_facts (db s)" by simp_all
    ultimately show ?thesis using skipped(5,6) by auto
  next
    case (appended fid vid)
    let ?f = "\<lparr>record_id = r, field_id = fid, value_id = vid, ts_ms = t1\<rparr>"
    from le have "\<forall>c\<in>set (pair_current L (db ?s0) r (field_name it)). ts_ms c \<le> t1" by simp
    from appended(10) [OF this] have cur: "filter (same_pair r fid) (current_facts (db s1)) = [?f]" .
    from find_filter_single [OF cur] have "get_current s1 r fid = Some (vid, t1)"
      by (simp add: get_current_def)
    from event_item_again [OF appended(3,4) this]
    have 1: "ingest_items L s1 r t2 EventDriven [it] = (Inr (), s1)"
      by (simp add: single_item_call rec [OF appended(2)])
    from appended(9) have 2: "vid \<notin> value_id ` set (pair_current L (db s) r (field_name it))"
      by simp
    from appended(1) have 3: "facts (db s1) = facts (db s) @ [?f]" by simp
    have 4: "pair_facts L (db s1) r (field_name it) = pair_facts L (db s) r (field_name it) @ [?f]"
      using appended(5) by (simp add: pair_rows_after(1) [OF appended(3)] appended(1) same_pair_def)
    have 5: "pair_current L (db s1) r (field_name it) = [?f]"
      by (simp add: pair_rows_after(2) [OF appended(3)] cur)
    from 1 2 3 4 5 appended(3,4) show ?thesis by auto
  qed
  then show "ingest_items L s1 r t2 EventDriven [it] = (Inr (), s1)"
    and "\<exists>fid vid.
         get_or_create_field L s1 (field_name it) = Inr (fid, s1) \<and>
         get_or_create_value L s1 (item_value it) = Inr (vid, s1) \<and>
         (if vid \<in> value_id ` set (pair_current L (db s) r (field_name it))
          then facts (db s1) = facts (db s) \<and> current_facts (db s1) = current_facts (db s)
          else facts (db s1) =
                 facts (db s) @ [\<lparr>record_id = r, field_id = fid, value_id = vid, ts_ms = t1\<rparr>] \<and>
               pair_facts L (db s1) r (field_name it) =
                 pair_facts L (db s) r (field_name it) @
                 [\<lparr>record_id = r, field_id = fid, value_id = vid, ts_ms = t1\<rparr>] \<and>
               pair_current L (db s1) r (field_name it) =
                 [\<lparr>record_id = r, field_id = fid, value_id = vid, ts_ms = t1\<rparr>])"
    by blast+
next
  assume w: "wf_db (db s)" and lt: "t1 < t2"
    and nt: "t2 \<notin> ts_ms ` set (pair_facts L (db s) r (field_name it))"
    and ok: "ingest_items L s r t1 ObservationDriven [it] = (Inr (), s1)"
  let ?s0 = "ensure_record s r t1"
  from ok have item: "ingest_item L r t1 ObservationDriven it ?s0 = Inr s1"
    by (rule ingest_items_single)
  from w have w0: "wf_db (db ?s0)" by (rule ensure_record_wf)
  from w0 item show "\<exists>s2 fid vid.
         ingest_items L s1 r t2 ObservationDriven [it] = (Inr (), s2) \<and>
         facts (db s2) =
           facts (db s) @ [\<lparr>record_id = r, field_id = fid, value_id = vid, ts_ms = t1\<rparr>,
                           \<lparr>record_id = r, field_id = fid, value_id = vid, ts_ms = t2\<rparr>] \<and>
         pair_facts L (db s2) r (field_name it) =
           pair_facts L (db s) r (field_name it) @
             [\<lparr>record_id = r, field_id = fid, value_id = vid, ts_ms = t1\<rparr>,
              \<lparr>record_id = r, field_id = fid, value_id = vid, ts_ms = t2\<rparr>]"
  proof (cases rule: ingest_item_outcome)
    case (skipped fid vid t)
    then show ?thesis by simp
  next
    case (appended fid vid)
    let ?f1 = "\<lparr>record_id = r, field_id = fid, value_id = vid, ts_ms = t1\<rparr>"
    let ?f2 = "\<lparr>record_id = r, field_id = fid, value_id = vid, ts_ms = t2\<rparr>"
    have rec: "ensure_record s1 r t2 = s1"
      by (rule ensure_record_again) (simp add: appended(2) ensure_record_has)
    have pf1: "filter (same_pair r fid) (facts (db s1)) = pair_facts L (db s) r (field_name it) @ [?f1]"
      using appended(5) by (simp add: appended(1) same_pair_def)
    have nd: "\<not> (\<exists>g \<in> set (facts (db s1)). same_pair r fid g \<and> ts_ms g = t2)"
    proof
      assume "\<exists>g \<in> set (facts (db s1)). same_pair r fid g \<and> ts_ms g = t2"
      then obtain g where "g \<in> set (filter (same_pair r fid) (facts (db s1)))" "ts_ms g = t2"
        by auto
      then have "g \<in> set (pair_facts L (db s) r (field_name it)) \<or> g = ?f1" "ts_ms g = t2"
        unfolding pf1 by auto
      with nt lt show False by auto
    qed
    from appended(7) have fk2: "fk_ok (db s1) ?f2" by (simp add: fk_ok_def)
    let ?s3 = "s1\<lparr>db := (db s1)\<lparr>facts := facts (db s1) @ [?f2]\<rparr>\<rparr>"
    from nd fk2 have ins: "insert_fact s1 ?f2 = Inr ?s3"
      by (simp add: insert_fact_def)
    from fk2 have "fk_ok (db ?s3) ?f2" by (simp add: fk_ok_def)
    from upsert_total [OF this] obtain s2 where ups: "upsert_current_if_newer ?s3 ?f2 = Inr s2"
      by blast
    have "ingest_item L r t2 ObservationDriven it s1 = Inr s2"
      by (simp add: ingest_item_def appended(3,4) ins ups Let_def)
    then have 1: "ingest_items L s1 r t2 ObservationDriven [it] = (Inr (), s2)"
      by (simp add: single_item_call rec)
    have f2: "facts (db s2) = facts (db s1) @ [?f2]"
      by (simp add: upsert_tables(1) [OF ups])
    with appended(1) have 2: "facts (db s2) = facts (db s) @ [?f1, ?f2]" by simp
    have "fields_tab (db s2) = fields_tab (db s1)"
      by (simp add: upsert_tables(3) [OF ups])
    from field_id_of_cong [OF this, of L "field_name it"] get_or_create_field_result(2) [OF appended(3)]
    have "field_id_of L (db s2) (field_name it) = Some fid" by simp
    then have 3: "pair_facts L (db s2) r (field_name it) =
        pair_facts L (db s) r (field_name it) @ [?f1, ?f2]"
      by (simp add: pair_facts_def f2 pf1 same_pair_def)
    from 1 2 3 show ?thesis by blast
  qed
next
  assume w: "wf_db (db s)" and e: "pair_facts L (db s) r (field_name it) = []"
    and lt: "t1 < t2" and ok: "ingest_items L s r t1 mode [it] = (Inr (), s1)"
  from first_ingest_of_pair [OF w e ok] obtain fid' vid' where
    gf: "get_or_create_field L s1 (field_name it) = Inr (fid', s1)" and
    gv: "get_or_create_value L s1 (item_value it) = Inr (vid', s1)" and
    fo: "field_id_of L (db s1) (field_name it) = Some fid'" and
    fs: "filter (same_pair r fid') (facts (db s1)) =
       [\<lparr>record_id = r, field_id = fid', value_id = vid', ts_ms = t1\<rparr>]" and
    cs: "filter (same_pair r fid') (current_facts (db s1)) =
       [\<lparr>record_id = r, field_id = fid', value_id = vid', ts_ms = t1\<rparr>]" and
    fk: "fk_ok (db s1) \<lparr>record_id = r, field_id = fid', value_id = vid', ts_ms = t1\<rparr>"
    by blast
  note ev = second_ingest_event [OF gf gv cs fk, of t2]
  from second_ingest_observe [OF gf gv fs cs fk lt] obtain s2 where
    ob: "ingest_items L s1 r t2 ObservationDriven [it] = (Inr (), s2)" and
    ft: "fields_tab (db s2) = fields_tab (db s1)" and
    f2: "facts (db s2) =
      facts (db s1) @ [\<lparr>record_id = r, field_id = fid', value_id = vid', ts_ms = t2\<rparr>]"
    by blast
  show "fst (ingest_items L s1 r t2 mode [it]) = Inr ()"
    using ev ob by (cases mode) simp_all
  show "map ts_ms (pair_facts L (db s1) r (field_name it)) = [t1]"
    by (simp add: pair_facts_def fo fs)
  show "map ts_ms (pair_current L (db s1) r (field_name it)) = [t1]"
    by (simp add: pair_current_def fo cs)
  {
    assume "mode = EventDriven"
    with ev show "snd (ingest_items L s1 r t2 mode [it]) = s1" by simp
  }
  {
    assume m: "mode = ObservationDriven"
    from field_id_of_cong [OF ft, of L "field_name it"] fo
    have "field_id_of L (db s2) (field_name it) = Some fid'" by simp
    then have "map ts_ms (pair_facts L (db s2) r (field_name it)) = [t1, t2]"
      by (simp add: pair_facts_def f2 fs same_pair_def)
    with m ob show "map ts_ms (pair_facts L (db (snd (ingest_items L s1 r t2 mode [it]))) r (field_name it)) =
           [t1, t2]" by simp
  }
qed
theorem event_mode_suppression_witness:
  "map ts_ms (pair_current ascii_lib (db old_store) 1 ''A'') = [500] \<and>
   fst (ingest_items ascii_lib old_store 1 1000 EventDriven [text_item ''A'' ''x'']) = Inr () \<and>
   ingest_items ascii_lib
     (snd (ingest_items ascii_lib old_store 1 1000 EventDriven [text_item ''A'' ''x'']))
     1 2000 EventDriven [text_item ''A'' ''x''] =
     (Inr (), snd (ingest_items ascii_lib old_store 1 1000 EventDriven [text_item ''A'' ''x''])) \<and>
   map ts_ms (pair_facts ascii_lib
     (db (snd (ingest_items ascii_lib old_store 1 1000 EventDriven [text_item ''A'' ''x''])))
     1 ''A'') = [500, 1000] \<and>
   map ts_ms (pair_current ascii_lib
     (db (snd (ingest_items ascii_lib old_store 1 1000 EventDriven [text_item ''A'' ''x''])))
     1 ''A'') = [1000] \<and>
   fst (ingest_items ascii_lib old_store 1 1000 ObservationDriven [text_item ''A'' ''x'']) = Inr () \<and>
   fst (ingest_items ascii_lib
     (snd (ingest_items ascii_lib old_store 1 1000 ObservationDriven [text_item ''A'' ''x'']))
     1 2000 ObservationDriven [text_item ''A'' ''x'']) = Inr () \<and>
   map ts_ms (pair_facts ascii_lib
     (db (snd (ingest_items ascii_lib
        (snd (ingest_items ascii_lib old_store 1 1000 ObservationDriven [text_item ''A'' ''x'']))
        1 2000 ObservationDriven [text_item ''A'' ''x''])))
     1 ''A'') = [500, 1000, 2000] \<and>
   pair_facts ascii_lib (db (fresh_store ascii_lib)) 1 ''A'' = [] \<and>
   fst (ingest_items ascii_lib (fresh_store ascii_lib) 1 1000 EventDriven [text_item ''A'' ''x'']) = Inr () \<and>
   ingest_items ascii_lib
     (snd (ingest_items ascii_lib (fresh_store ascii_lib) 1 1000 EventDriven [text_item ''A'' ''x'']))
     1 2000 EventDriven [text_item ''A'' ''x''] =
     (Inr (), snd (ingest_items ascii_lib (fresh_store ascii_lib) 1 1000 EventDriven [text_item ''A'' ''x''])) \<and>
   facts (db (snd (ingest_items ascii_lib (fresh_store ascii_lib) 1 1000 EventDriven [text_item ''A'' ''x'']))) =
     [\<lparr>record_id = 1, field_id = 1, value_id = 2, ts_ms = 1000\<rparr>] \<and>
   map ts_ms (pair_facts ascii_lib
     (db (snd (ingest_items ascii_lib
        (snd (ingest_items ascii_lib (fresh_store ascii_lib) 1 1000 ObservationDriven [text_item ''A'' ''x'']))
        1 2000 ObservationDriven [text_item ''A'' ''x''])))
     1 ''A'') = [1000, 2000]"
proof -
  let ?s = "fresh_store ascii_lib"
  let ?it = "text_item ''A'' ''x''"
  let ?e1 = "snd (ingest_items ascii_lib ?s 1 1000 EventDriven [?it])"
  let ?o1 = "snd (ingest_items ascii_lib ?s 1 1000 ObservationDriven [?it])"
  let ?p1 = "snd (ingest_items ascii_lib old_store 1 1000 EventDriven [?it])"
  let ?q1 = "snd (ingest_items ascii_lib old_store 1 1000 ObservationDriven [?it])"
  have n [simp]: "field_name ?it = ''A''" by (simp add: text_item_def)
  have "facts (db ?s) = []" "current_facts (db ?s) = []"
    by (simp_all add: felix_eval)
  then have w: "wf_db (db ?s)" by (rule empty_tables_wf)
  then have wo: "wf_db (db old_store)" unfolding old_store_def by (rule ingest_items_wf)
  have e: "pair_facts ascii_lib (db ?s) 1 (field_name ?it) = []"
    by (simp add: felix_eval pair_facts_def field_id_of_def)
  have lt: "(1000::int) < 2000" by simp
  have fe: "fst (ingest_items ascii_lib ?s 1 1000 EventDriven [?it]) = Inr ()"
    by (simp add: felix_eval text_item_def)
  have fo: "fst (ingest_items ascii_lib ?s 1 1000 ObservationDriven [?it]) = Inr ()"
    by (simp add: felix_eval text_item_def)
  from fe have oke: "ingest_items ascii_lib ?s 1 1000 EventDriven [?it] = (Inr (), ?e1)"
    by (metis prod.collapse)
  from fo have oko: "ingest_items ascii_lib ?s 1 1000 ObservationDriven [?it] = (Inr (), ?o1)"
    by (metis prod.collapse)
  have gf: "get_or_create_field ascii_lib ?e1 (field_name ?it) = Inr (1, ?e1)"
    by (simp add: felix_eval text_item_def)
  have gv: "get_or_create_value ascii_lib ?e1 (item_value ?it) = Inr (2, ?e1)"
    by (simp add: felix_eval text_item_def)
  have gc: "get_current ?e1 1 1 = Some (2, 1000)"
    by (simp add: felix_eval text_item_def)
  have fs: "facts (db ?e1) = [\<lparr>record_id = 1, field_id = 1, value_id = 2, ts_ms = 1000\<rparr>]"
    by (simp add: felix_eval text_item_def)
  have pco: "pair_current ascii_lib (db old_store) 1 (field_name ?it) =
      [\<lparr>record_id = 1, field_id = 1, value_id = 2, ts_ms = 500\<rparr>]"
    by (simp add: felix_eval text_item_def old_store_def pair_current_def field_id_of_def)
  then have le: "\<forall>c\<in>set (pair_current ascii_lib (db old_store) 1 (field_name ?it)). ts_ms c \<le> 1000"
    by simp
  have pfo: "pair_facts ascii_lib (db old_store) 1 (field_name ?it) =
      [\<lparr>record_id = 1, field_id = 1, value_id = 2, ts_ms = 500\<rparr>]"
    by (simp add: felix_eval text_item_def old_store_def pair_facts_def field_id_of_def)
  then have nt: "2000 \<notin> ts_ms ` set (pair_facts ascii_lib (db old_store) 1 (field_name ?it))"
    by simp
  have fpe: "fst (ingest_items ascii_lib old_store 1 1000 EventDriven [?it]) = Inr ()"
    by (simp add: felix_eval text_item_def old_store_def)
  have fpo: "fst (ingest_items ascii_lib old_store 1 1000 ObservationDriven [?it]) = Inr ()"
    by (simp add: felix_eval text_item_def old_store_def)
  from fpe have okp: "ingest_items ascii_lib old_store 1 1000 EventDriven [?it] = (Inr (), ?p1)"
    by (metis prod.collapse)
  from fpo have okq: "ingest_items ascii_lib old_store 1 1000 ObservationDriven [?it] = (Inr (), ?q1)"
    by (metis prod.collapse)
  have pf1: "map ts_ms (pair_facts ascii_lib (db ?p1) 1 ''A'') = [500, 1000]"
    by (simp add: felix_eval text_item_def old_store_def pair_facts_def field_id_of_def)
  have pc1: "map ts_ms (pair_current ascii_lib (db ?p1) 1 ''A'') = [1000]"
    by (simp add: felix_eval text_item_def old_store_def pair_current_def field_id_of_def)
  note A = event_mode_suppression [where L = ascii_lib and s = ?s and r = 1 and it = ?it
      and ?t1.0 = 1000 and ?t2.0 = 2000 and mode = EventDriven and ?s1.0 = ?e1
      and ?s0.0 = ?e1 and fid = 1 and sa = ?e1 and vid = 2 and sb = ?e1 and t = 1000]
  note B = event_mode_suppression [where L = ascii_lib and s = old_store and r = 1 and it = ?it
      and ?t1.0 = 1000 and ?t2.0 = 2000 and mode = EventDriven and ?s1.0 = ?p1
      and ?s0.0 = ?e1 and fid = 1 and sa = ?e1 and vid = 2 and sb = ?e1 and t = 1000]
  note D = event_mode_suppression [where L = ascii_lib and s = old_store and r = 1 and it = ?it
      and ?t1.0 = 1000 and ?t2.0 = 2000 and mode = EventDriven and ?s1.0 = ?q1
      and ?s0.0 = ?e1 and fid = 1 and sa = ?e1 and vid = 2 and sb = ?e1 and t = 1000]
  note O = event_mode_suppression [where L = ascii_lib and s = ?s and r = 1 and it = ?it
      and ?t1.0 = 1000 and ?t2.0 = 2000 and mode = ObservationDriven and ?s1.0 = ?o1
      and ?s0.0 = ?e1 and fid = 1 and sa = ?e1 and vid = 2 and sb = ?e1 and t = 1000]
  from A gf gv gc have skip: "ingest_item ascii_lib 1 2000 EventDriven ?it ?e1 = Inr ?e1"
    by blast
  from pco have 1: "map ts_ms (pair_current ascii_lib (db old_store) 1 ''A'') = [500]" by simp
  from B wo le okp have 3: "ingest_items ascii_lib ?p1 1 2000 EventDriven [?it] = (Inr (), ?p1)"
    by blast
  from D wo lt nt okq obtain s2 fid vid where
    d1: "ingest_items ascii_lib ?q1 1 2000 ObservationDriven [?it] = (Inr (), s2)" and
    d2: "pair_facts ascii_lib (db s2) 1 (field_name ?it) =
           pair_facts ascii_lib (db old_store) 1 (field_name ?it) @
             [\<lparr>record_id = 1, field_id = fid, value_id = vid, ts_ms = 1000\<rparr>,
              \<lparr>record_id = 1, field_id = fid, value_id = vid, ts_ms = 2000\<rparr>]"
    by blast
  from d1 have 7: "fst (ingest_items ascii_lib ?q1 1 2000 ObservationDriven [?it]) = Inr ()" by simp
  from d1 have "snd (ingest_items ascii_lib ?q1 1 2000 ObservationDriven [?it]) = s2" by simp
  with d2 pfo have 8: "map ts_ms (pair_facts ascii_lib
      (db (snd (ingest_items ascii_lib ?q1 1 2000 ObservationDriven [?it]))) 1 ''A'') = [500, 1000, 2000]"
    by simp
  from e have 9: "pair_facts ascii_lib (db ?s) 1 ''A'' = []" by simp
  from A w e lt oke have
    e2: "fst (ingest_items ascii_lib ?e1 1 2000 EventDriven [?it]) = Inr ()" and
    e3: "snd (ingest_items ascii_lib ?e1 1 2000 EventDriven [?it]) = ?e1"
    by blast+
  from e2 e3 have 11: "ingest_items ascii_lib ?e1 1 2000 EventDriven [?it] = (Inr (), ?e1)"
    by (metis prod.collapse)
  from O w e lt oko have
    "map ts_ms (pair_facts ascii_lib
          (db (snd (ingest_items ascii_lib ?o1 1 2000 ObservationDriven [?it]))) 1 (field_name ?it)) =
         [1000, 2000]"
    by blast
  then have 13: "map ts_ms (pair_facts ascii_lib
          (db (snd (ingest_items ascii_lib ?o1 1 2000 ObservationDriven [?it]))) 1 ''A'') =
         [1000, 2000]" by simp
  from 1 fpe 3 pf1 pc1 fpo 7 8 9 fe 11 fs 13 show ?thesis by (intro conjI)
qed

text \<open>
  Without the condition on the current row the second ingest is not suppressed: in
  the store that holds \<open>A = y\<close> at 5000, the EventDriven ingests of \<open>A = x\<close> at 1000 and
  at 2000 both succeed and both append their fact, and the current row stays at 5000.
\<close>

theorem event_suppression_late_counterexample:
  "facts (db late_store) = [\<lparr>record_id = 1, field_id = 1, value_id = 2, ts_ms = 5000\<rparr>] \<and>
   fst (ingest_items ascii_lib late_store 1 1000 EventDriven [text_item ''A'' ''x'']) = Inr () \<and>
   fst (ingest_items ascii_lib
     (snd (ingest_items ascii_lib late_store 1 1000 EventDriven [text_item ''A'' ''x'']))
     1 2000 EventDriven [text_item ''A'' ''x'']) = Inr () \<and>
   facts (db (snd (ingest_items ascii_lib
     (snd (ingest_items ascii_lib late_store 1 1000 EventDriven [text_item ''A'' ''x'']))
     1 2000 EventDriven [text_item ''A'' ''x'']))) =
     [\<lparr>record_id = 1, field_id = 1, value_id = 2, ts_ms = 5000\<rparr>,
      \<lparr>record_id = 1, field_id = 1, value_id = 3, ts_ms = 1000\<rparr>,
      \<lparr>record_id = 1, field_id = 1, value_id = 3, ts_ms = 2000\<rparr>] \<and>
   current_facts (db (snd (ingest_items ascii_lib
     (snd (ingest_items ascii_lib late_store 1 1000 EventDriven [text_item ''A'' ''x'']))
     1 2000 EventDriven [text_item ''A'' ''x'']))) =
     [\<lparr>record_id = 1, field_id = 1, value_id = 2, ts_ms = 5000\<rparr>]"
  by (simp add: felix_eval text_item_def late_store_def)
section \<open>One field twice in a call: the error and the event mode\<close>

text \<open>Whether a value can be interned depends on the value and the tag map, not on the tables.\<close>

lemma get_or_create_value_succeeds:
  assumes g: "get_or_create_value L s cv = Inr (vid, s')" and tm: "tagmap s2 = tagmap s"
  shows "\<exists>vid' s2'. get_or_create_value L s2 cv = Inr (vid', s2')"
proof -
  let ?canon = "if logical_type cv = BytesT then canon_blob cv else canon_text cv"
  from g have big: "\<not> (logical_type cv = TextT \<and> length (canon_text cv) > 1 * 1024 * 1024)"
    "\<not> (logical_type cv = BytesT \<and> length (canon_blob cv) > 4 * 1024 * 1024)"
    by (auto simp: get_or_create_value_def split: if_splits)
  from get_or_create_value_result [OF g] obtain tag where
    tag: "type_tag_byte (tagmap s2) (logical_type cv) = Inr tag"
    unfolding tm by blast
  then obtain h where h: "sha256_typed L (tagmap s2) (hashfmt s2) (logical_type cv) ?canon = Inr h"
    by (simp add: sha256_typed_def)
  from find_after_insert_value [of "cv\<lparr>hash := h\<rparr>" "db s2" tag] obtain x where
    "find (\<lambda>r. v_hash r = h) (f_values (insert_value_or_ignore (db s2) tag (cv\<lparr>hash := h\<rparr>))) = Some x"
    by auto
  with big tag h show ?thesis
    by (simp add: get_or_create_value_def Let_def)
qed

lemma observe_second_item_conflicts:
  assumes a: "ingest_items L s r ts ObservationDriven [a] = (Inr (), s1)"
    and b: "fst (ingest_items L s r ts ObservationDriven [b]) = Inr ()"
    and n: "field_name b = field_name a"
  shows "ingest_item L r ts ObservationDriven b s1 = Inl Duplicate"
proof -
  let ?s0 = "ensure_record s r ts"
  from a have ia: "ingest_item L r ts ObservationDriven a ?s0 = Inr s1"
    by (rule ingest_items_single)
  from b obtain sb1 where ib: "ingest_item L r ts ObservationDriven b ?s0 = Inr sb1"
    by (auto simp: single_item_call split: sum.splits)
  from ib obtain fidb sab vidb sbb where
    gfb: "get_or_create_field L ?s0 (field_name b) = Inr (fidb, sab)" and
    gvb: "get_or_create_value L sab (item_value b) = Inr (vidb, sbb)"
    by (cases rule: ingest_item_cases) blast+
  from ia show ?thesis
  proof (cases rule: ingest_item_cases)
    case (skip fid sa vid)
    then show ?thesis by simp
  next
    case (append fid sa vid sb sc)
    let ?fa = "\<lparr>record_id = r, field_id = fid, value_id = vid, ts_ms = ts\<rparr>"
    note t = ingest_item_append_tables [OF append(1,2,4,5)]
    have gf: "get_or_create_field L s1 (field_name b) = Inr (fid, s1)"
      unfolding n by (rule get_or_create_field_again [OF append(1) t(1)])
    have "tagmap s1 = tagmap sab"
      by (simp add: t(4) get_or_create_field_tables(6) [OF append(1)]
            get_or_create_field_tables(6) [OF gfb])
    from get_or_create_value_succeeds [OF gvb this] obtain vid' s2 where
      gv: "get_or_create_value L s1 (item_value b) = Inr (vid', s2)" by blast
    have "?fa \<in> set (facts (db s2))"
      by (simp add: get_or_create_value_tables(4) [OF gv] t(2))
    then have "\<exists>g \<in> set (facts (db s2)). same_pair r fid g \<and> ts_ms g = ts"
      by (intro bexI [of _ ?fa]) (simp_all add: same_pair_def)
    then have "insert_fact s2 \<lparr>record_id = r, field_id = fid, value_id = vid', ts_ms = ts\<rparr> = Inl Duplicate"
      by (simp add: insert_fact_def)
    then show ?thesis
      by (simp add: ingest_item_def gf gv Let_def)
  qed
qed

lemma event_twice_skipped:
  assumes w: "wf_db (db s)" and ok: "ingest_items L s r ts EventDriven [it] = (Inr (), s1)"
    and same: "facts (db s1) = facts (db s)"
  shows "ingest_items L s r ts EventDriven [it, it] = (Inr (), s1)"
proof -
  let ?s0 = "ensure_record s r ts"
  from ok have item: "ingest_item L r ts EventDriven it ?s0 = Inr s1"
    by (rule ingest_items_single)
  from w have w0: "wf_db (db ?s0)" by (rule ensure_record_wf)
  from w0 item have "ingest_item L r ts EventDriven it s1 = Inr s1"
  proof (cases rule: ingest_item_outcome)
    case (skipped fid vid t)
    from event_item_again [OF skipped(5,6,7)] show ?thesis .
  next
    case (appended fid vid)
    with same show ?thesis by simp
  qed
  with item show ?thesis by (simp add: two_item_call)
qed

lemma event_twice_late:
  assumes w: "wf_db (db s)" and ok: "ingest_items L s r ts EventDriven [it] = (Inr (), s1)"
    and diff: "facts (db s1) \<noteq> facts (db s)"
    and late: "\<exists>c\<in>set (pair_current L (db s) r (field_name it)). ts < ts_ms c"
  shows "ingest_items L s r ts EventDriven [it, it] = (Inl Duplicate, s)"
proof -
  let ?s0 = "ensure_record s r ts"
  from ok have item: "ingest_item L r ts EventDriven it ?s0 = Inr s1"
    by (rule ingest_items_single)
  from w have w0: "wf_db (db ?s0)" by (rule ensure_record_wf)
  from w0 item have "ingest_item L r ts EventDriven it s1 = Inl Duplicate"
  proof (cases rule: ingest_item_outcome)
    case (skipped fid vid t)
    with diff show ?thesis by simp
  next
    case (appended fid vid)
    let ?f = "\<lparr>record_id = r, field_id = fid, value_id = vid, ts_ms = ts\<rparr>"
    from late have l0: "\<exists>c\<in>set (pair_current L (db ?s0) r (field_name it)). ts < ts_ms c" by simp
    note cs = appended(11) [OF l0]
    have eq: "filter (same_pair r fid) (current_facts (db s1)) =
        pair_current L (db ?s0) r (field_name it)"
      using appended(6) by (simp only: cs)
    from appended(9) have nv: "vid \<notin> value_id ` set (filter (same_pair r fid) (current_facts (db s1)))"
      unfolding eq by simp
    have "\<not> (case get_current s1 r fid of Some (v, t) \<Rightarrow> v = vid | None \<Rightarrow> False)"
    proof (cases "find (same_pair r fid) (current_facts (db s1))")
      case None
      then show ?thesis by (simp add: get_current_def)
    next
      case (Some c)
      then have "c \<in> set (filter (same_pair r fid) (current_facts (db s1)))"
        by (auto simp: find_Some_iff)
      then have "value_id c \<in> value_id ` set (filter (same_pair r fid) (current_facts (db s1)))"
        by (rule imageI)
      with nv have "value_id c \<noteq> vid" by metis
      with Some show ?thesis by (simp add: get_current_def)
    qed
    moreover have "?f \<in> set (facts (db s1))" by (simp add: appended(1))
    then have "\<exists>g \<in> set (facts (db s1)). same_pair r fid g \<and> ts_ms g = ts"
      by (intro bexI [of _ ?f]) (simp_all add: same_pair_def)
    then have "insert_fact s1 ?f = Inl Duplicate"
      by (simp add: insert_fact_def)
    ultimately show ?thesis
      by (simp add: ingest_item_def appended(3,4) Let_def)
  qed
  with item show ?thesis by (simp add: two_item_call)
qed

text \<open>
  Claim C10 (amended). An ObservationDriven ingest call whose items name one field
  twice fails, whatever the values, and leaves the store exactly as it was before the
  call; when the call has two items of one field name, each of which the call would
  ingest alone, the second item's insert into the log is refused with \<open>Duplicate\<close> and
  that is the error of the call. In EventDriven mode, for two items with the same field
  name and value in a consistent store: when the call with the one item fails, so does
  the call with the two, with the same error; when the one item is skipped, both are, and
  the call succeeds with no fact; when the current row of the record and field, if
  there is one, is not newer than the call's time stamp, the second item is skipped and
  the call does what the call with the one item does; when the current row is newer than
  the call's time stamp and the one item appends its fact, the second item is not
  skipped, and the call fails with \<open>Duplicate\<close> and leaves the store as it was. When the
  record has no fact under the field and the call with the one item succeeds, the call
  with the two items succeeds and leaves one fact for the pair, at the call's time stamp.
\<close>

theorem field_twice_in_one_call:
  "(\<not> distinct (map field_name items) \<longrightarrow>
      (\<exists>e. ingest_items L s r ts ObservationDriven items = (Inl e, s))) \<and>
   (field_name b = field_name a \<longrightarrow>
    ingest_items L s r ts ObservationDriven [a] = (Inr (), sa) \<longrightarrow>
    fst (ingest_items L s r ts ObservationDriven [b]) = Inr () \<longrightarrow>
      ingest_item L r ts ObservationDriven b sa = Inl Duplicate \<and>
      ingest_items L s r ts ObservationDriven [a, b] = (Inl Duplicate, s)) \<and>
   (fst (ingest_items L s r ts mode [it]) = Inl e \<longrightarrow>
      ingest_items L s r ts mode [it, it] = (Inl e, s)) \<and>
   (wf_db (db s) \<longrightarrow> ingest_items L s r ts EventDriven [it] = (Inr (), s1) \<longrightarrow>
    facts (db s1) = facts (db s) \<longrightarrow>
      ingest_items L s r ts EventDriven [it, it] = (Inr (), s1)) \<and>
   (wf_db (db s) \<longrightarrow> (\<forall>c\<in>set (pair_current L (db s) r (field_name it)). ts_ms c \<le> ts) \<longrightarrow>
      ingest_items L s r ts EventDriven [it, it] = ingest_items L s r ts EventDriven [it]) \<and>
   (wf_db (db s) \<longrightarrow> ingest_items L s r ts EventDriven [it] = (Inr (), s1) \<longrightarrow>
    facts (db s1) \<noteq> facts (db s) \<longrightarrow>
    (\<exists>c\<in>set (pair_current L (db s) r (field_name it)). ts < ts_ms c) \<longrightarrow>
      ingest_items L s r ts EventDriven [it, it] = (Inl Duplicate, s)) \<and>
   (wf_db (db s) \<longrightarrow> pair_facts L (db s) r (field_name it) = [] \<longrightarrow>
    ingest_items L s r ts EventDriven [it] = (Inr (), s1) \<longrightarrow>
      ingest_items L s r ts EventDriven [it, it] = (Inr (), s1) \<and>
      map ts_ms (pair_facts L (db s1) r (field_name it)) = [ts])"
proof (intro conjI impI)
  assume "\<not> distinct (map field_name items)"
  then show "\<exists>e. ingest_items L s r ts ObservationDriven items = (Inl e, s)"
    by (rule ingest_items_duplicate_fails)
next
  assume n: "field_name b = field_name a"
    and a: "ingest_items L s r ts ObservationDriven [a] = (Inr (), sa)"
    and b: "fst (ingest_items L s r ts ObservationDriven [b]) = Inr ()"
  from observe_second_item_conflicts [OF a b n]
  show d: "ingest_item L r ts ObservationDriven b sa = Inl Duplicate" .
  from ingest_items_single [OF a] d
  show "ingest_items L s r ts ObservationDriven [a, b] = (Inl Duplicate, s)"
    by (simp add: two_item_call)
next
  assume "fst (ingest_items L s r ts mode [it]) = Inl e"
  then show "ingest_items L s r ts mode [it, it] = (Inl e, s)"
    by (auto simp: single_item_call two_item_call split: sum.splits)
next
  assume "wf_db (db s)" and "ingest_items L s r ts EventDriven [it] = (Inr (), s1)"
    and "facts (db s1) = facts (db s)"
  then show "ingest_items L s r ts EventDriven [it, it] = (Inr (), s1)"
    by (rule event_twice_skipped)
next
  assume "wf_db (db s)" and "\<forall>c\<in>set (pair_current L (db s) r (field_name it)). ts_ms c \<le> ts"
  then show "ingest_items L s r ts EventDriven [it, it] = ingest_items L s r ts EventDriven [it]"
    by (rule event_items_twice)
next
  assume "wf_db (db s)" and "ingest_items L s r ts EventDriven [it] = (Inr (), s1)"
    and "facts (db s1) \<noteq> facts (db s)"
    and "\<exists>c\<in>set (pair_current L (db s) r (field_name it)). ts < ts_ms c"
  then show "ingest_items L s r ts EventDriven [it, it] = (Inl Duplicate, s)"
    by (rule event_twice_late)
next
  assume w: "wf_db (db s)" and e: "pair_facts L (db s) r (field_name it) = []"
    and ok: "ingest_items L s r ts EventDriven [it] = (Inr (), s1)"
  from pair_facts_empty_current [OF w e]
  have "\<forall>c\<in>set (pair_current L (db s) r (field_name it)). ts_ms c \<le> ts" by simp
  from event_items_twice [OF w this] ok
  show "ingest_items L s r ts EventDriven [it, it] = (Inr (), s1)" by simp
  from first_ingest_of_pair [OF w e ok] obtain fid vid where
    "field_id_of L (db s1) (field_name it) = Some fid"
    "filter (same_pair r fid) (facts (db s1)) =
       [\<lparr>record_id = r, field_id = fid, value_id = vid, ts_ms = ts\<rparr>]"
    by blast
  then show "map ts_ms (pair_facts L (db s1) r (field_name it)) = [ts]"
    by (simp add: pair_facts_def)
qed
theorem field_twice_in_one_call_witness:
  "ingest_items ascii_lib (fresh_store ascii_lib) 1 1000 ObservationDriven
     [text_item ''A'' ''x'', text_item ''A'' ''y''] = (Inl Duplicate, fresh_store ascii_lib) \<and>
   ingest_items ascii_lib (fresh_store ascii_lib) 1 1000 EventDriven
     [text_item (replicate 257 (CHR ''a'')) ''x'', text_item (replicate 257 (CHR ''a'')) ''x''] =
     (Inl FieldTooLong, fresh_store ascii_lib) \<and>
   ingest_items ascii_lib old_store 1 1000 EventDriven [text_item ''A'' ''y'', text_item ''A'' ''y''] =
     (Inr (), snd (ingest_items ascii_lib old_store 1 1000 EventDriven [text_item ''A'' ''y''])) \<and>
   facts (db (snd (ingest_items ascii_lib old_store 1 1000 EventDriven [text_item ''A'' ''y'']))) =
     [\<lparr>record_id = 1, field_id = 1, value_id = 2, ts_ms = 500\<rparr>] \<and>
   ingest_items ascii_lib old_store 1 1000 EventDriven [text_item ''A'' ''x'', text_item ''A'' ''x''] =
     ingest_items ascii_lib old_store 1 1000 EventDriven [text_item ''A'' ''x''] \<and>
   ingest_items ascii_lib late_store 1 1000 EventDriven [text_item ''A'' ''x'', text_item ''A'' ''x''] =
     (Inl Duplicate, late_store) \<and>
   pair_facts ascii_lib (db (fresh_store ascii_lib)) 1 ''A'' = [] \<and>
   fst (ingest_items ascii_lib (fresh_store ascii_lib) 1 1000 EventDriven
          [text_item ''A'' ''x'', text_item ''A'' ''x'']) = Inr () \<and>
   map ts_ms (pair_facts ascii_lib
     (db (snd (ingest_items ascii_lib (fresh_store ascii_lib) 1 1000 EventDriven
                 [text_item ''A'' ''x'', text_item ''A'' ''x''])))
     1 ''A'') = [1000]"
proof -
  let ?s = "fresh_store ascii_lib"
  let ?x = "text_item ''A'' ''x''" and ?y = "text_item ''A'' ''y''"
  let ?long = "text_item (replicate 257 (CHR ''a'')) ''x''"
  let ?e1 = "snd (ingest_items ascii_lib ?s 1 1000 EventDriven [?x])"
  let ?o1 = "snd (ingest_items ascii_lib ?s 1 1000 ObservationDriven [?x])"
  let ?k1 = "snd (ingest_items ascii_lib old_store 1 1000 EventDriven [?y])"
  let ?l1 = "snd (ingest_items ascii_lib late_store 1 1000 EventDriven [?x])"
  have nx [simp]: "field_name ?x = ''A''" and ny [simp]: "field_name ?y = ''A''"
    by (simp_all add: text_item_def)
  have "facts (db ?s) = []" "current_facts (db ?s) = []"
    by (simp_all add: felix_eval)
  then have w: "wf_db (db ?s)" by (rule empty_tables_wf)
  then have wo: "wf_db (db old_store)" unfolding old_store_def by (rule ingest_items_wf)
  from w have wl: "wf_db (db late_store)" unfolding late_store_def by (rule ingest_items_wf)
  have nd: "\<not> distinct (map field_name [?x, ?y])" by simp
  have nn: "field_name ?y = field_name ?x" by simp
  have e: "pair_facts ascii_lib (db ?s) 1 (field_name ?x) = []"
    by (simp add: felix_eval pair_facts_def field_id_of_def)
  have "fst (ingest_items ascii_lib ?s 1 1000 EventDriven [?x]) = Inr ()"
    by (simp add: felix_eval text_item_def)
  then have ok: "ingest_items ascii_lib ?s 1 1000 EventDriven [?x] = (Inr (), ?e1)"
    by (metis prod.collapse)
  have "fst (ingest_items ascii_lib ?s 1 1000 ObservationDriven [?x]) = Inr ()"
    by (simp add: felix_eval text_item_def)
  then have oka: "ingest_items ascii_lib ?s 1 1000 ObservationDriven [?x] = (Inr (), ?o1)"
    by (metis prod.collapse)
  have okb: "fst (ingest_items ascii_lib ?s 1 1000 ObservationDriven [?y]) = Inr ()"
    by (simp add: felix_eval text_item_def)
  have fl: "fst (ingest_items ascii_lib ?s 1 1000 EventDriven [?long]) = Inl FieldTooLong"
    by (simp add: ingest_items_def with_tx_def ingest_item_def get_or_create_field_def text_item_def)
  have "fst (ingest_items ascii_lib old_store 1 1000 EventDriven [?y]) = Inr ()"
    by (simp add: felix_eval text_item_def old_store_def)
  then have okk: "ingest_items ascii_lib old_store 1 1000 EventDriven [?y] = (Inr (), ?k1)"
    by (metis prod.collapse)
  have fo: "facts (db old_store) = [\<lparr>record_id = 1, field_id = 1, value_id = 2, ts_ms = 500\<rparr>]"
    by (simp add: felix_eval text_item_def old_store_def)
  have fk: "facts (db ?k1) = [\<lparr>record_id = 1, field_id = 1, value_id = 2, ts_ms = 500\<rparr>]"
    by (simp add: felix_eval text_item_def old_store_def)
  have "pair_current ascii_lib (db old_store) 1 (field_name ?x) =
      [\<lparr>record_id = 1, field_id = 1, value_id = 2, ts_ms = 500\<rparr>]"
    by (simp add: felix_eval text_item_def old_store_def pair_current_def field_id_of_def)
  then have le: "\<forall>c\<in>set (pair_current ascii_lib (db old_store) 1 (field_name ?x)). ts_ms c \<le> 1000"
    by simp
  have "fst (ingest_items ascii_lib late_store 1 1000 EventDriven [?x]) = Inr ()"
    by (simp add: felix_eval text_item_def late_store_def)
  then have okl: "ingest_items ascii_lib late_store 1 1000 EventDriven [?x] = (Inr (), ?l1)"
    by (metis prod.collapse)
  have fla: "facts (db late_store) = [\<lparr>record_id = 1, field_id = 1, value_id = 2, ts_ms = 5000\<rparr>]"
    by (simp add: felix_eval text_item_def late_store_def)
  have fl1: "facts (db ?l1) =
      [\<lparr>record_id = 1, field_id = 1, value_id = 2, ts_ms = 5000\<rparr>,
       \<lparr>record_id = 1, field_id = 1, value_id = 3, ts_ms = 1000\<rparr>]"
    by (simp add: felix_eval text_item_def late_store_def)
  from fla fl1 have diff: "facts (db ?l1) \<noteq> facts (db late_store)" by simp
  have "pair_current ascii_lib (db late_store) 1 (field_name ?x) =
      [\<lparr>record_id = 1, field_id = 1, value_id = 2, ts_ms = 5000\<rparr>]"
    by (simp add: felix_eval text_item_def late_store_def pair_current_def field_id_of_def)
  then have late: "\<exists>c\<in>set (pair_current ascii_lib (db late_store) 1 (field_name ?x)). 1000 < ts_ms c"
    by simp
  note A = field_twice_in_one_call [where L = ascii_lib and s = ?s and r = 1 and ts = 1000
      and items = "[?x, ?y]" and a = ?x and b = ?y and sa = ?o1 and it = ?x and ?s1.0 = ?e1
      and mode = EventDriven and e = FieldTooLong]
  note B = field_twice_in_one_call [where L = ascii_lib and s = ?s and r = 1 and ts = 1000
      and items = "[?x, ?y]" and a = ?x and b = ?y and sa = ?o1 and it = ?long and ?s1.0 = ?e1
      and mode = EventDriven and e = FieldTooLong]
  note C = field_twice_in_one_call [where L = ascii_lib and s = old_store and r = 1 and ts = 1000
      and items = "[?x, ?y]" and a = ?x and b = ?y and sa = ?o1 and it = ?y and ?s1.0 = ?k1
      and mode = EventDriven and e = FieldTooLong]
  note D = field_twice_in_one_call [where L = ascii_lib and s = old_store and r = 1 and ts = 1000
      and items = "[?x, ?y]" and a = ?x and b = ?y and sa = ?o1 and it = ?x and ?s1.0 = ?k1
      and mode = EventDriven and e = FieldTooLong]
  note E = field_twice_in_one_call [where L = ascii_lib and s = late_store and r = 1 and ts = 1000
      and items = "[?x, ?y]" and a = ?x and b = ?y and sa = ?o1 and it = ?x and ?s1.0 = ?l1
      and mode = EventDriven and e = FieldTooLong]
  from A nd have 0: "\<exists>e. ingest_items ascii_lib ?s 1 1000 ObservationDriven [?x, ?y] = (Inl e, ?s)"
    by blast
  from A nn oka okb have 1: "ingest_items ascii_lib ?s 1 1000 ObservationDriven [?x, ?y] =
      (Inl Duplicate, ?s)"
    by blast
  from B fl have 2: "ingest_items ascii_lib ?s 1 1000 EventDriven [?long, ?long] = (Inl FieldTooLong, ?s)"
    by blast
  from fo fk have "facts (db ?k1) = facts (db old_store)" by simp
  with C wo okk have 3: "ingest_items ascii_lib old_store 1 1000 EventDriven [?y, ?y] = (Inr (), ?k1)"
    by blast
  from D wo le have 5: "ingest_items ascii_lib old_store 1 1000 EventDriven [?x, ?x] =
      ingest_items ascii_lib old_store 1 1000 EventDriven [?x]"
    by blast
  from E wl okl diff late have 6: "ingest_items ascii_lib late_store 1 1000 EventDriven [?x, ?x] =
      (Inl Duplicate, late_store)"
    by blast
  from e have 7: "pair_facts ascii_lib (db ?s) 1 ''A'' = []" by simp
  from A w e ok have t: "ingest_items ascii_lib ?s 1 1000 EventDriven [?x, ?x] = (Inr (), ?e1)"
    and p: "map ts_ms (pair_facts ascii_lib (db ?e1) 1 (field_name ?x)) = [1000]"
    by blast+
  from t have 8: "fst (ingest_items ascii_lib ?s 1 1000 EventDriven [?x, ?x]) = Inr ()" by simp
  from t have "snd (ingest_items ascii_lib ?s 1 1000 EventDriven [?x, ?x]) = ?e1" by simp
  with p have 9: "map ts_ms (pair_facts ascii_lib
      (db (snd (ingest_items ascii_lib ?s 1 1000 EventDriven [?x, ?x]))) 1 ''A'') = [1000]"
    by simp
  from 1 2 3 fk 5 6 7 8 9 show ?thesis by (intro conjI)
qed

text \<open>
  Without the condition on the current row the second item is not skipped: after
  \<open>A = x\<close> at 1000, the call at 500 with \<open>A = y\<close> twice appends the fact of the first
  item and leaves the current row at \<open>x\<close>, so the second item is inserted as well, the
  primary key of the log refuses it and the call is rolled back; the call with the item
  once succeeds.
\<close>

theorem event_twice_late_counterexample:
  "fst (ingest_items ascii_lib (fresh_store ascii_lib) 1 1000 EventDriven [text_item ''A'' ''x'']) = Inr () \<and>
   ingest_items ascii_lib
     (snd (ingest_items ascii_lib (fresh_store ascii_lib) 1 1000 EventDriven [text_item ''A'' ''x'']))
     1 500 EventDriven [text_item ''A'' ''y'', text_item ''A'' ''y''] =
     (Inl Duplicate,
      snd (ingest_items ascii_lib (fresh_store ascii_lib) 1 1000 EventDriven [text_item ''A'' ''x''])) \<and>
   fst (ingest_items ascii_lib
     (snd (ingest_items ascii_lib (fresh_store ascii_lib) 1 1000 EventDriven [text_item ''A'' ''x'']))
     1 500 EventDriven [text_item ''A'' ''y'']) = Inr ()"
  by (simp add: felix_eval text_item_def)
end
